theory Spec2Isabelle
  imports Main "HOL-Library.Word"
begin

unbundle bit_operations_syntax

section \<open>cpcp: the concurrent copy engine of cpcp.go\<close>

text \<open>
  The development embeds \<^verbatim>\<open>cpcp.go\<close>: the driver \<^verbatim>\<open>CPCP\<close>, the worker \<^verbatim>\<open>copier\<close>,
  \<^verbatim>\<open>fmtErr\<close> and the \<^verbatim>\<open>setPreserve\<close> closure of \<^verbatim>\<open>parseArgs\<close>. The worker of the second
  iteration of the program (the one that keeps a \<^verbatim>\<open>dereference\<close> flag) is the same text,
  line for line. Line numbers in the comments are those of \<^verbatim>\<open>cpcp.go\<close>.
\<close>

subsection \<open>File modes\<close>

text \<open>
  \<^verbatim>\<open>os.FileMode\<close> is a \<^verbatim>\<open>uint32\<close>. The mode bits are the constants of Go's standard
  library (package \<^verbatim>\<open>os\<close>), which the program uses by name; \<^verbatim>\<open>IsDir\<close> and
  \<^verbatim>\<open>IsRegular\<close> are the library's methods.
\<close>

type_synonym FileMode = "32 word"

definition ModeDir :: FileMode where
  "ModeDir = push_bit 31 1"

definition ModeSymlink :: FileMode where
  "ModeSymlink = push_bit 27 1"

definition ModeDevice :: FileMode where
  "ModeDevice = push_bit 26 1"

definition ModeNamedPipe :: FileMode where
  "ModeNamedPipe = push_bit 25 1"

definition ModeSocket :: FileMode where
  "ModeSocket = push_bit 24 1"

definition ModeCharDevice :: FileMode where
  "ModeCharDevice = push_bit 21 1"

definition ModeIrregular :: FileMode where
  "ModeIrregular = push_bit 19 1"

definition ModeType :: FileMode where
  "ModeType = ModeDir OR ModeSymlink OR ModeNamedPipe OR ModeSocket OR ModeDevice
     OR ModeCharDevice OR ModeIrregular"

definition mode_IsDir :: "FileMode \<Rightarrow> bool" where
  "mode_IsDir m = (m AND ModeDir \<noteq> 0)"

definition IsRegular :: "FileMode \<Rightarrow> bool" where
  "IsRegular m = (m AND ModeType = 0)"

text \<open>The test of line 394, \<^verbatim>\<open>srcfi.Mode()|os.ModeSymlink != 0\<close>.\<close>

definition symlink_test :: "FileMode \<Rightarrow> bool" where
  "symlink_test m = (m OR ModeSymlink \<noteq> 0)"

subsection \<open>Errors and error lines\<close>

text \<open>
  A Go \<^verbatim>\<open>error\<close> value: \<^verbatim>\<open>io.EOF\<close>, or an error of the operating system with what
  \<^verbatim>\<open>os.IsExist\<close> and \<^verbatim>\<open>os.IsNotExist\<close> say about it and the text \<^verbatim>\<open>err.Error()\<close> gives.
\<close>

datatype errkind = NotExist | Exist | OtherKind

datatype error = EOF | OsError errkind string

fun Error :: "error \<Rightarrow> string" where
  "Error EOF = ''EOF''"
| "Error (OsError k m) = m"

fun IsExist :: "error \<Rightarrow> bool" where
  "IsExist (OsError Exist m) = True"
| "IsExist e = False"

fun IsNotExist :: "error \<Rightarrow> bool" where
  "IsNotExist (OsError NotExist m) = True"
| "IsNotExist e = False"

text \<open>\<^verbatim>\<open>%d\<close> of a line number.\<close>

definition digit :: "nat \<Rightarrow> char" where
  "digit n = ''0123456789'' ! n"

function decimal :: "nat \<Rightarrow> string" where
  "decimal n = (if n < 10 then [digit n] else decimal (n div 10) @ [digit (n mod 10)])"
  by pat_completeness auto
termination
  by (relation "measure id") auto

text \<open>
  \<^verbatim>\<open>fmtErr\<close> (lines 267 to 280). \<^verbatim>\<open>runtime.Caller(1)\<close> names the calling line of this
  file: the argument \<open>line\<close> is that line, and the base name of the file is
  \<^verbatim>\<open>cpcp.go\<close>.
\<close>

definition fmtErr :: "string \<Rightarrow> error \<Rightarrow> nat \<Rightarrow> string" where
  "fmtErr pth err line =
     (let rv = Error err;
          rv = (if rv = [] then ''unknown error'' else rv);
          rv = (if pth \<noteq> [] then pth @ '': '' @ rv else rv)
      in rv @ '' @'' @ ''cpcp.go'' @ '':'' @ decimal line)"

subsection \<open>Entries, tasks and the configuration\<close>

text \<open>
  An \<open>entry\<close> is an \<^verbatim>\<open>os.FileInfo\<close> as the program reads it (\<^verbatim>\<open>Name()\<close>, \<^verbatim>\<open>Mode()\<close>,
  \<^verbatim>\<open>IsDir()\<close>), together with what the operating system answers to the calls the worker
  makes for the task of this entry: \<^verbatim>\<open>os.Mkdir\<close>, \<^verbatim>\<open>os.Chmod\<close>, \<^verbatim>\<open>os.Open\<close>, the
  successive \<^verbatim>\<open>f.Readdir\<close> calls (the batches returned with a nil error, then the last
  call's entries and its non-nil error), \<^verbatim>\<open>os.Create\<close>, \<^verbatim>\<open>io.CopyBuffer\<close>,
  \<^verbatim>\<open>os.Readlink\<close> and \<^verbatim>\<open>os.Symlink\<close>. \<open>None\<close> is a nil error. The answers may be
  anything: a regular file may fail to open, a listing may stop with an error after any
  batch. The one thing the type fixes is that a listing ends: every directory answers
  \<^verbatim>\<open>Readdir\<close> with a non-nil error after finitely many calls, and the tree below an
  entry is finite.
\<close>

datatype entry = Entry
  (Name: string) (Mode: FileMode)
  (on_mkdir: "error option") (on_chmod: "error option") (on_open: "error option")
  (on_readdir: "entry list list") (on_readdir_last: "entry list") (on_readdir_err: error)
  (on_create: "error option") (on_copy: "error option")
  (on_readlink: "error + string") (on_symlink: "error option")

definition IsDir :: "entry \<Rightarrow> bool" where
  "IsDir fi = mode_IsDir (Mode fi)"

text \<open>\<^verbatim>\<open>copyTask\<close> (lines 261 to 265); \<open>None\<close> is the nil \<^verbatim>\<open>os.FileInfo\<close>.\<close>

record copyTask =
  src :: string
  dst :: string
  srcfi :: "entry option"

text \<open>\<^verbatim>\<open>&copyTask{}\<close> of line 73.\<close>

definition empty_copyTask :: copyTask where
  "empty_copyTask = \<lparr>src = [], dst = [], srcfi = None\<rparr>"

text \<open>\<^verbatim>\<open>config\<close> (lines 146 to 158).\<close>

record config =
  verbosity :: int
  noDereference :: bool
  recursive :: bool
  messageBuffer :: nat
  errBuffer :: nat
  parallelTasks :: nat
  readdirBuffer :: nat
  copyBuffer :: nat
  umask :: FileMode
  preserveLinks :: bool
  preserveMode :: bool

text \<open>
  What the program takes from outside itself: \<^verbatim>\<open>os.Stat\<close> and \<^verbatim>\<open>os.Lstat\<close> as the driver
  calls them, \<^verbatim>\<open>path.Join\<close> and \<^verbatim>\<open>path.Base\<close>, and the \<^verbatim>\<open>%q\<close> verb of \<^verbatim>\<open>fmt\<close>.
\<close>

record env =
  Stat :: "string \<Rightarrow> error + entry"
  Lstat :: "string \<Rightarrow> error + entry"
  Join :: "string \<Rightarrow> string \<Rightarrow> string"
  Base :: "string \<Rightarrow> string"
  Quote :: "string \<Rightarrow> string"

subsection \<open>Channels and the shared state\<close>

text \<open>
  A buffered channel is the list of the values it holds, oldest first. \<open>recv\<close> is
  \<^verbatim>\<open><-ch\<close> and \<open>send\<close> is \<^verbatim>\<open>ch <- x\<close> on a channel of capacity \<open>cap\<close>; \<open>None\<close> means
  that the operation cannot proceed now (a plain receive or send blocks there, a
  \<^verbatim>\<open>select\<close> with a \<^verbatim>\<open>default\<close> takes the default).
\<close>

definition recv :: "'a list \<Rightarrow> ('a \<times> 'a list) option" where
  "recv ch = (case ch of [] \<Rightarrow> None | x # xs \<Rightarrow> Some (x, xs))"

definition send :: "nat \<Rightarrow> 'a list \<Rightarrow> 'a \<Rightarrow> 'a list option" where
  "send cap ch x = (if length ch < cap then Some (ch @ [x]) else None)"

text \<open>The calls to the operating system that a worker makes, with their arguments.\<close>

datatype fsop =
    OpMkdir string FileMode
  | OpChmod string FileMode
  | OpOpen string
  | OpReaddir string
  | OpClose string
  | OpCreate string
  | OpCopy string string
  | OpReadlink string
  | OpSymlink string string

text \<open>
  What the goroutines share: the two task channels (\<^verbatim>\<open>copyTasks\<close>, \<^verbatim>\<open>freeCopyTasks\<close>, both
  of capacity \<^verbatim>\<open>cfg.parallelTasks\<close>), the counter of the \<^verbatim>\<open>sync.WaitGroup\<close>, the lines
  sent to \<^verbatim>\<open>msgs\<close> and to \<^verbatim>\<open>errs\<close> so far (each channel has a printer goroutine that only
  receives, so a send to it is never refused for good: the model keeps the lines in the
  order sent), the calls made to the operating system so far, and the files that are
  open (each by the path it was opened on).
\<close>

record shared =
  copyTasks :: "copyTask list"
  freeCopyTasks :: "copyTask list"
  wg :: int
  msgs :: "string list"
  errs :: "string list"
  ops :: "fsop list"
  fds :: "string list"

definition report :: "string \<Rightarrow> shared \<Rightarrow> shared" where
  "report line s = s\<lparr>errs := errs s @ [line]\<rparr>"

definition say :: "string \<Rightarrow> shared \<Rightarrow> shared" where
  "say line s = s\<lparr>msgs := msgs s @ [line]\<rparr>"

definition call :: "fsop \<Rightarrow> shared \<Rightarrow> shared" where
  "call c s = s\<lparr>ops := ops s @ [c]\<rparr>"

definition wg_Add :: "int \<Rightarrow> shared \<Rightarrow> shared" where
  "wg_Add n s = s\<lparr>wg := wg s + n\<rparr>"

definition wg_Done :: "shared \<Rightarrow> shared" where
  "wg_Done s = s\<lparr>wg := wg s - 1\<rparr>"

definition fd_open :: "string \<Rightarrow> shared \<Rightarrow> shared" where
  "fd_open p s = s\<lparr>fds := fds s @ [p]\<rparr>"

definition fd_close :: "string \<Rightarrow> shared \<Rightarrow> shared" where
  "fd_close p s = call (OpClose p) (s\<lparr>fds := remove1 p (fds s)\<rparr>)"

subsection \<open>The worker: \<^verbatim>\<open>copier\<close>\<close>

text \<open>
  One worker is the body of the \<^verbatim>\<open>for\<close> loop of \<^verbatim>\<open>copier\<close> (lines 285 to 403), cut at
  the places where it touches the shared channels. Its own state is the overflow buffer
  \<^verbatim>\<open>localTasks\<close> and the place it stands at:
  \<^item> \<open>Acquire\<close>: the top of the loop (line 289);
  \<^item> \<open>Execute srcp dstp srcfi\<close>: the three locals are set and the task is about to be
    carried out (line 312);
  \<^item> \<open>Range srcp dstp fis err bs lst e\<close>: inside \<^verbatim>\<open>for _, fi := range fis\<close> (line 344) with
    \<open>fis\<close> still to visit, \<open>err\<close> the error of the \<^verbatim>\<open>Readdir\<close> call that gave them, and
    \<open>bs\<close>, \<open>lst\<close>, \<open>e\<close> what the later \<^verbatim>\<open>Readdir\<close> calls will answer.
  A step is what the worker does from one such place to the next. \<open>BlockedOnReceive\<close>
  and \<open>BlockedOnSend\<close> say that the worker cannot go on now because a plain channel
  operation blocks; \<open>Panic\<close> is a method call on a nil \<^verbatim>\<open>os.FileInfo\<close>; \<open>AtWait\<close> is
  used by the driver only.
\<close>

datatype 'a outcome = Step 'a | BlockedOnReceive | BlockedOnSend | Panic | AtWait

datatype pc =
    Acquire
  | Execute string string "entry option"
  | Range string string "entry list" "error option" "entry list list" "entry list" error

record worker =
  localTasks :: "copyTask list"
  pc :: pc

text \<open>
  Lines 289 to 311. With a buffered task: take the last one off \<^verbatim>\<open>localTasks\<close>, then
  \<^verbatim>\<open>select\<close> on a receive from \<^verbatim>\<open>freeCopyTasks\<close>; on success fill the pooled object, send it
  to \<^verbatim>\<open>copyTasks\<close> (a plain send) and \<^verbatim>\<open>continue\<close>; on \<^verbatim>\<open>default\<close> keep the task's fields
  in the locals. With no buffered task: a plain receive from \<^verbatim>\<open>copyTasks\<close>, the fields
  to the locals, and the object goes back to \<^verbatim>\<open>freeCopyTasks\<close> (a plain send).
\<close>

definition acquire :: "config \<Rightarrow> worker \<Rightarrow> shared \<Rightarrow> (worker \<times> shared) outcome" where
  "acquire cfg w s =
     (if length (localTasks w) > 0 then
        (let ct = last (localTasks w);
             l = butlast (localTasks w)
         in case recv (freeCopyTasks s) of
              Some (fct, free) \<Rightarrow>
                (case send (parallelTasks cfg) (copyTasks s)
                        (fct\<lparr>src := src ct, dst := dst ct, srcfi := srcfi ct\<rparr>) of
                   Some q \<Rightarrow> Step (w\<lparr>localTasks := l\<rparr>, s\<lparr>freeCopyTasks := free, copyTasks := q\<rparr>)
                 | None \<Rightarrow> BlockedOnSend)
            | None \<Rightarrow> Step (w\<lparr>localTasks := l, pc := Execute (src ct) (dst ct) (srcfi ct)\<rparr>, s))
      else
        (case recv (copyTasks s) of
           None \<Rightarrow> BlockedOnReceive
         | Some (ct, q) \<Rightarrow>
             (case send (parallelTasks cfg) (freeCopyTasks s) ct of
                Some free \<Rightarrow>
                  Step (w\<lparr>pc := Execute (src ct) (dst ct) (srcfi ct)\<rparr>,
                        s\<lparr>copyTasks := q, freeCopyTasks := free\<rparr>)
              | None \<Rightarrow> BlockedOnSend)))"

text \<open>
  One call of \<^verbatim>\<open>f.Readdir(cfg.readdirBuffer)\<close> (line 343): the entries and the error it
  returns, and the batches left for the calls after it.
\<close>

definition readdir :: "entry list list \<Rightarrow> entry list \<Rightarrow> error \<Rightarrow> entry list \<times> error option \<times> entry list list" where
  "readdir bs lst e = (case bs of [] \<Rightarrow> (lst, Some e, []) | b # bs' \<Rightarrow> (b, None, bs'))"

definition enter_readdir :: "string \<Rightarrow> string \<Rightarrow> entry list list \<Rightarrow> entry list \<Rightarrow> error \<Rightarrow> worker \<Rightarrow> shared \<Rightarrow> worker \<times> shared" where
  "enter_readdir srcp dstp bs lst e w s =
     (case readdir bs lst e of
        (fis, err, bs') \<Rightarrow> (w\<lparr>pc := Range srcp dstp fis err bs' lst e\<rparr>, call (OpReaddir srcp) s))"

text \<open>
  The directory branch, lines 315 to 343: up to the first \<^verbatim>\<open>Readdir\<close>. The branch of
  line 316 ends with \<^verbatim>\<open>continue\<close> and makes no call of \<^verbatim>\<open>wg.Done\<close>; the branch of line
  337 calls \<^verbatim>\<open>wg.Done\<close> before its \<^verbatim>\<open>continue\<close>.
\<close>

definition copy_directory :: "env \<Rightarrow> config \<Rightarrow> string \<Rightarrow> string \<Rightarrow> entry \<Rightarrow> worker \<Rightarrow> shared \<Rightarrow> worker \<times> shared" where
  "copy_directory env cfg srcp dstp fi w s =
     (if \<not> recursive cfg then
        (w\<lparr>pc := Acquire\<rparr>, report (''omitting directory '' @ Quote env srcp) s)
      else
        (let m = Mode fi;
             m = (if \<not> preserveMode cfg then m AND umask cfg else m);
             s = call (OpMkdir dstp m) s;
             s = (case on_mkdir fi of
                    Some err \<Rightarrow> if \<not> IsExist err then report (fmtErr dstp err 326) s else s
                  | None \<Rightarrow> s);
             s = (if preserveMode cfg then
                    (let s = call (OpChmod dstp m) s
                     in case on_chmod fi of
                          Some err \<Rightarrow> report (fmtErr dstp err 333) s
                        | None \<Rightarrow> s)
                  else s);
             s = call (OpOpen srcp) s
         in case on_open fi of
              Some err \<Rightarrow> (w\<lparr>pc := Acquire\<rparr>, wg_Done (report (fmtErr srcp err 338) s))
            | None \<Rightarrow>
                enter_readdir srcp dstp (on_readdir fi) (on_readdir_last fi) (on_readdir_err fi) w
                  (fd_open srcp s)))"

text \<open>The regular file branch, lines 370 to 393.\<close>

definition copy_regular :: "config \<Rightarrow> string \<Rightarrow> string \<Rightarrow> entry \<Rightarrow> shared \<Rightarrow> shared" where
  "copy_regular cfg srcp dstp fi s =
     (let s = call (OpOpen srcp) s
      in case on_open fi of
           Some err \<Rightarrow> report (fmtErr srcp err 373) s
         | None \<Rightarrow>
             (let s = fd_open srcp s;
                  s = call (OpCreate dstp) s
              in case on_create fi of
                   Some err \<Rightarrow> report (fmtErr dstp err 377) s
                 | None \<Rightarrow>
                     (let s = fd_open dstp s;
                          s = call (OpCopy dstp srcp) s;
                          s = (case on_copy fi of
                                 Some err \<Rightarrow> report (fmtErr dstp err 381) s
                               | None \<Rightarrow> s);
                          s = fd_close srcp s;
                          s = fd_close dstp s;
                          m = Mode fi;
                          m = (if \<not> preserveMode cfg then m AND umask cfg else m);
                          s = call (OpChmod dstp m) s
                      in case on_chmod fi of
                           Some err \<Rightarrow> report (fmtErr dstp err 390) s
                         | None \<Rightarrow> s)))"

text \<open>The last branch, lines 394 to 401.\<close>

definition copy_symlink :: "string \<Rightarrow> string \<Rightarrow> entry \<Rightarrow> shared \<Rightarrow> shared" where
  "copy_symlink srcp dstp fi s =
     (let s = call (OpReadlink srcp) s
      in case on_readlink fi of
           Inl err \<Rightarrow> report (fmtErr srcp err 397) s
         | Inr target \<Rightarrow>
             (let s = call (OpSymlink target dstp) s
              in case on_symlink fi of
                   Some err \<Rightarrow> report (fmtErr dstp err 399) s
                 | None \<Rightarrow> s))"

text \<open>Lines 312 to 341 and 370 to 402: the message, the dispatch on the entry's type,
  and the \<^verbatim>\<open>wg.Done\<close> of line 402 for the branches that reach it.\<close>

definition execute :: "env \<Rightarrow> config \<Rightarrow> string \<Rightarrow> string \<Rightarrow> entry option \<Rightarrow> worker \<Rightarrow> shared \<Rightarrow> (worker \<times> shared) outcome" where
  "execute env cfg srcp dstp info w s =
     (let s = (if verbosity cfg > 0 then say (srcp @ '' -> '' @ dstp) s else s)
      in case info of
           None \<Rightarrow> Panic
         | Some fi \<Rightarrow>
             if IsDir fi then Step (copy_directory env cfg srcp dstp fi w s)
             else if IsRegular (Mode fi) then
               Step (w\<lparr>pc := Acquire\<rparr>, wg_Done (copy_regular cfg srcp dstp fi s))
             else if symlink_test (Mode fi) then
               Step (w\<lparr>pc := Acquire\<rparr>, wg_Done (copy_symlink srcp dstp fi s))
             else Step (w\<lparr>pc := Acquire\<rparr>, wg_Done s))"

text \<open>
  Lines 344 to 369, one round: either the next entry of the batch (the tracker is
  raised, then \<^verbatim>\<open>select\<close> on a receive from \<^verbatim>\<open>freeCopyTasks\<close>: on success the pooled object
  is filled and sent to \<^verbatim>\<open>copyTasks\<close>, on \<^verbatim>\<open>default\<close> a fresh task is appended to
  \<^verbatim>\<open>localTasks\<close>), or the end of the batch (on an error the directory is closed, the error
  reported unless it is \<^verbatim>\<open>io.EOF\<close>, and line 402 is reached; with no error the next
  \<^verbatim>\<open>Readdir\<close>).
\<close>

definition range_step :: "env \<Rightarrow> config \<Rightarrow> string \<Rightarrow> string \<Rightarrow> entry list \<Rightarrow> error option \<Rightarrow> entry list list \<Rightarrow> entry list \<Rightarrow> error \<Rightarrow> worker \<Rightarrow> shared \<Rightarrow> (worker \<times> shared) outcome" where
  "range_step env cfg srcp dstp fis err bs lst e w s =
     (case fis of
        fi # rest \<Rightarrow>
          (let subsrc = Join env srcp (Name fi);
               subdst = Join env dstp (Name fi);
               s = wg_Add 1 s;
               w = w\<lparr>pc := Range srcp dstp rest err bs lst e\<rparr>
           in case recv (freeCopyTasks s) of
                Some (ct, free) \<Rightarrow>
                  (case send (parallelTasks cfg) (copyTasks s)
                          (ct\<lparr>src := subsrc, dst := subdst, srcfi := Some fi\<rparr>) of
                     Some q \<Rightarrow> Step (w, s\<lparr>freeCopyTasks := free, copyTasks := q\<rparr>)
                   | None \<Rightarrow> BlockedOnSend)
              | None \<Rightarrow>
                  Step (w\<lparr>localTasks := localTasks w @ [\<lparr>src = subsrc, dst = subdst, srcfi = Some fi\<rparr>]\<rparr>, s))
      | [] \<Rightarrow>
          (case err of
             Some er \<Rightarrow>
               (let s = fd_close srcp s;
                    s = (if er \<noteq> EOF then report (fmtErr srcp er 365) s else s)
                in Step (w\<lparr>pc := Acquire\<rparr>, wg_Done s))
           | None \<Rightarrow> Step (enter_readdir srcp dstp bs lst e w s)))"

definition worker_step :: "env \<Rightarrow> config \<Rightarrow> worker \<Rightarrow> shared \<Rightarrow> (worker \<times> shared) outcome" where
  "worker_step env cfg w s =
     (case pc w of
        Acquire \<Rightarrow> acquire cfg w s
      | Execute srcp dstp info \<Rightarrow> execute env cfg srcp dstp info w s
      | Range srcp dstp fis err bs lst e \<Rightarrow> range_step env cfg srcp dstp fis err bs lst e w s)"

subsection \<open>The driver: \<^verbatim>\<open>CPCP\<close>\<close>

text \<open>
  The driver first decides what it will do, from the arguments and from what \<^verbatim>\<open>os.Stat\<close>
  and \<^verbatim>\<open>os.Lstat\<close> answer: a sequence of error lines to send to \<^verbatim>\<open>errs\<close> and of tasks to
  submit. The flags are parsed by a library outside the program, so the driver is given
  the configuration and the positional arguments that \<^verbatim>\<open>parseArgs\<close> returns.
\<close>

datatype action = Report string | Submit string string entry

text \<open>Lines 36 to 38, with \<open>u\<close> the value \<^verbatim>\<open>syscall.Umask(0)\<close> returns.\<close>

definition capture_umask :: "int \<Rightarrow> config \<Rightarrow> config" where
  "capture_umask u cfg = cfg\<lparr>umask := word_of_int (u AND 0x1ff)\<rparr>"

text \<open>Lines 84 to 88 and 110 to 114.\<close>

definition stat_src :: "env \<Rightarrow> config \<Rightarrow> string \<Rightarrow> error + entry" where
  "stat_src env cfg srcp = (if noDereference cfg then Lstat env srcp else Stat env srcp)"

text \<open>Lines 89 to 100 and 115 to 128: what the driver does with one source.\<close>

definition source_action :: "env \<Rightarrow> config \<Rightarrow> string \<Rightarrow> string \<Rightarrow> nat \<Rightarrow> action" where
  "source_action env cfg srcp dstp line =
     (case stat_src env cfg srcp of
        Inl err \<Rightarrow> Report (fmtErr srcp err line)
      | Inr fi \<Rightarrow>
          if IsDir fi \<and> \<not> recursive cfg then Report (''omitting directory '' @ Quote env srcp)
          else Submit srcp dstp fi)"

text \<open>Lines 77 to 100.\<close>

definition single_source :: "env \<Rightarrow> config \<Rightarrow> string \<Rightarrow> string \<Rightarrow> action list" where
  "single_source env cfg srcp dstp =
     (let dstp = (case Stat env dstp of
                    Inr dstfi \<Rightarrow> if IsDir dstfi then Join env dstp (Base env srcp) else dstp
                  | Inl err \<Rightarrow> dstp)
      in [source_action env cfg srcp dstp 90])"

text \<open>Lines 108 to 129.\<close>

fun each_source :: "env \<Rightarrow> config \<Rightarrow> string \<Rightarrow> string list \<Rightarrow> action list" where
  "each_source env cfg dstp [] = []"
| "each_source env cfg dstp (srcp # srcs) =
     source_action env cfg srcp (Join env dstp (Base env srcp)) 116 # each_source env cfg dstp srcs"

text \<open>Lines 101 to 131.\<close>

definition multi_source :: "env \<Rightarrow> config \<Rightarrow> string list \<Rightarrow> string \<Rightarrow> action list" where
  "multi_source env cfg srcs dstp =
     (case Stat env dstp of
        Inl err \<Rightarrow>
          if \<not> IsNotExist err then [Report (fmtErr dstp err 104)]
          else [Report (''target '' @ Quote env dstp @ '' is not a directory'')]
      | Inr dstfi \<Rightarrow>
          if \<not> IsDir dstfi then [Report (''target '' @ Quote env dstp @ '' is not a directory'')]
          else each_source env cfg dstp srcs)"

text \<open>Lines 27 to 34 and 77 to 131: \<open>Inl\<close> is the error \<^verbatim>\<open>CPCP\<close> returns at once.\<close>

definition CPCP_actions :: "env \<Rightarrow> config \<Rightarrow> string list \<Rightarrow> string + action list" where
  "CPCP_actions env cfg args =
     (case args of
        [] \<Rightarrow> Inl ''nothing specified to copy''
      | [a] \<Rightarrow> Inl (''missing destination parameter after '' @ Quote env a)
      | _ \<Rightarrow>
          (let srcs = butlast args;
               dstp = last args
           in Inr (if length srcs = 1 then single_source env cfg (hd srcs) dstp
                   else multi_source env cfg srcs dstp)))"

text \<open>
  \<^verbatim>\<open>setPreserve\<close> (lines 173 to 190), the one place where \<^verbatim>\<open>parseArgs\<close> writes the two
  preserve flags: the argument of \<^verbatim>\<open>--preserve\<close> is split at the commas
  (\<^verbatim>\<open>strings.Split\<close>) and each part is looked at in turn.
\<close>

fun split_on :: "char \<Rightarrow> string \<Rightarrow> string list" where
  "split_on c [] = [[]]"
| "split_on c (x # xs) =
     (if x = c then [] # split_on c xs
      else (case split_on c xs of p # ps \<Rightarrow> (x # p) # ps | [] \<Rightarrow> [[x]]))"

fun set_preserves :: "env \<Rightarrow> config \<Rightarrow> string list \<Rightarrow> string + config" where
  "set_preserves env cfg [] = Inr cfg"
| "set_preserves env cfg (preserve # preserves) =
     (if preserve = [] then set_preserves env cfg preserves
      else if preserve = ''links'' then set_preserves env (cfg\<lparr>preserveLinks := True\<rparr>) preserves
      else if preserve = ''mode'' then set_preserves env (cfg\<lparr>preserveMode := True\<rparr>) preserves
      else if preserve = ''all'' then
        set_preserves env (cfg\<lparr>preserveLinks := True, preserveMode := True\<rparr>) preserves
      else Inl (''unsupported preserve specification '' @ Quote env preserve @ [CHR 0x0A]))"

definition setPreserve :: "env \<Rightarrow> config \<Rightarrow> string \<Rightarrow> string + config" where
  "setPreserve env cfg arg = set_preserves env cfg (split_on (CHR '','') arg)"

text \<open>
  Lines 23 to 26: with a verbosity above 1 the driver prints the configuration and the
  arguments with \<^verbatim>\<open>%#v\<close>, which writes every field of the structure with its value.
\<close>

datatype dump = CfgIs config | ArgsAre "string list"

definition debug_dump :: "config \<Rightarrow> string list \<Rightarrow> dump list" where
  "debug_dump cfg args = (if verbosity cfg > 1 then [CfgIs cfg, ArgsAre args] else [])"

text \<open>
  Lines 139 to 143: the count of error lines is a \<^verbatim>\<open>uint32\<close>; \<open>None\<close> is the nil
  error.
\<close>

definition final_result :: "string list \<Rightarrow> string option" where
  "final_result lines =
     (let finalErrCount = (word_of_nat (length lines) :: 32 word)
      in if finalErrCount > 0 then Some (''there were '' @ decimal (unat finalErrCount) @ '' errors'')
         else None)"

subsection \<open>The whole engine\<close>

text \<open>
  The engine is the shared state, the workers and what the driver still has to do.
  Lines 70 to 75 build its first state: both channels have the capacity
  \<^verbatim>\<open>cfg.parallelTasks\<close>, the pool holds that many empty task objects and that many workers
  stand at the top of their loop.
\<close>

record engine =
  sh :: shared
  workers :: "worker list"
  driver :: "action list"

definition init :: "config \<Rightarrow> action list \<Rightarrow> engine" where
  "init cfg acts =
     \<lparr>sh = \<lparr>copyTasks = [], freeCopyTasks = replicate (parallelTasks cfg) empty_copyTask,
             wg = 0, msgs = [], errs = [], ops = [], fds = []\<rparr>,
      workers = replicate (parallelTasks cfg) \<lparr>localTasks = [], pc = Acquire\<rparr>,
      driver = acts\<rparr>"

text \<open>
  One step of the driver: an error line (lines 90, 92, 104, 106, 116, 120), or a
  submission (lines 94 to 99 and 123 to 128: a plain receive from \<^verbatim>\<open>freeCopyTasks\<close>, the
  fields, \<^verbatim>\<open>wg.Add(1)\<close>, a plain send to \<^verbatim>\<open>copyTasks\<close>). With nothing left the driver
  stands at \<^verbatim>\<open>wg.Wait()\<close> (line 133).
\<close>

definition driver_step :: "config \<Rightarrow> engine \<Rightarrow> engine outcome" where
  "driver_step cfg g =
     (case driver g of
        [] \<Rightarrow> AtWait
      | Report line # rest \<Rightarrow> Step (g\<lparr>sh := report line (sh g), driver := rest\<rparr>)
      | Submit srcp dstp fi # rest \<Rightarrow>
          (case recv (freeCopyTasks (sh g)) of
             None \<Rightarrow> BlockedOnReceive
           | Some (ct, free) \<Rightarrow>
               (let s = wg_Add 1 (sh g)
                in case send (parallelTasks cfg) (copyTasks s)
                          (ct\<lparr>src := srcp, dst := dstp, srcfi := Some fi\<rparr>) of
                     Some q \<Rightarrow> Step (g\<lparr>sh := s\<lparr>freeCopyTasks := free, copyTasks := q\<rparr>, driver := rest\<rparr>)
                   | None \<Rightarrow> BlockedOnSend)))"

text \<open>
  The goroutines run in any order: a successor of a state is what one goroutine that
  can go on makes of it, the driver or the worker number \<open>i\<close>. A step takes a receive
  from one task channel together with the send to the other one that follows it in the
  text (lines 94 to 99, 294 to 298, 306 to 310, 349 to 353), and the calls to the operating
  system between two places of a worker. If the send cannot proceed the step is
  \<open>BlockedOnSend\<close> and the goroutine does not move; \<open>pool_conserved\<close> and
  \<open>worker_step_progress\<close> below show that this never happens in a state the engine
  reaches.
\<close>

definition worker_succ :: "env \<Rightarrow> config \<Rightarrow> engine \<Rightarrow> nat \<Rightarrow> engine list" where
  "worker_succ env cfg g i =
     (case worker_step env cfg (workers g ! i) (sh g) of
        Step (w, s) \<Rightarrow> [g\<lparr>sh := s, workers := (workers g)[i := w]\<rparr>]
      | _ \<Rightarrow> [])"

definition successors :: "env \<Rightarrow> config \<Rightarrow> engine \<Rightarrow> engine list" where
  "successors env cfg g =
     (case driver_step cfg g of Step g' \<Rightarrow> [g'] | _ \<Rightarrow> [])
     @ concat (map (worker_succ env cfg g) [0..<length (workers g)])"

text \<open>\<^verbatim>\<open>wg.Wait()\<close> of line 133 returns: the driver has submitted everything and the
  tracker is zero.\<close>

definition finished :: "engine \<Rightarrow> bool" where
  "finished g = (driver g = [] \<and> wg (sh g) = 0)"

subsection \<open>Runs\<close>

text \<open>
  A state is reached from \<open>g0\<close> when some interleaving of the goroutines leads to it.
  \<open>run\<close> follows one interleaving: at each step the number \<open>k\<close> picks the goroutine
  that moves, among those that can.
\<close>

inductive reaches :: "env \<Rightarrow> config \<Rightarrow> engine \<Rightarrow> engine \<Rightarrow> bool" for env cfg g0 where
  start: "reaches env cfg g0 g0"
| step: "reaches env cfg g0 g \<Longrightarrow> g' \<in> set (successors env cfg g) \<Longrightarrow> reaches env cfg g0 g'"

fun run :: "env \<Rightarrow> config \<Rightarrow> nat list \<Rightarrow> engine \<Rightarrow> engine option" where
  "run env cfg [] g = Some g"
| "run env cfg (k # ks) g =
     (case drop k (successors env cfg g) of [] \<Rightarrow> None | g' # rest \<Rightarrow> run env cfg ks g')"

subsection \<open>What is left to do, and what every state satisfies\<close>

text \<open>
  The work left in a state, counted so that every step lowers it: an entry weighs one
  more than its listing, a listing one per \<^verbatim>\<open>Readdir\<close> call and, for each entry it
  returns, two more than the entry; a task in a channel or in an overflow buffer weighs
  one more than its entry. Republishing a buffered task keeps the weight and shortens the
  buffer.
\<close>

fun wt :: "entry \<Rightarrow> nat" where
  "wt (Entry n m a b c bs lst e d f g h) =
     2 + sum_list (map (\<lambda>b. 1 + sum_list (map (\<lambda>c. wt c + 2) b)) bs) + sum_list (map (\<lambda>c. wt c + 2) lst)"

definition kids :: "entry list \<Rightarrow> nat" where
  "kids fis = sum_list (map (\<lambda>c. wt c + 2) fis)"

definition stream :: "entry list list \<Rightarrow> entry list \<Rightarrow> nat" where
  "stream bs lst = sum_list (map (\<lambda>b. 1 + kids b) bs) + kids lst + 1"

definition wt_task :: "copyTask \<Rightarrow> nat" where
  "wt_task ct = (case srcfi ct of None \<Rightarrow> 1 | Some fi \<Rightarrow> wt fi + 1)"

fun wt_pc :: "pc \<Rightarrow> nat" where
  "wt_pc Acquire = 0"
| "wt_pc (Execute a b None) = 0"
| "wt_pc (Execute a b (Some fi)) = wt fi"
| "wt_pc (Range a b fis err bs lst e) =
     kids fis + 1 + (case err of None \<Rightarrow> stream bs lst | Some x \<Rightarrow> 0)"

definition wt_worker :: "worker \<Rightarrow> nat" where
  "wt_worker w = sum_list (map wt_task (localTasks w)) + wt_pc (pc w)"

fun wt_action :: "action \<Rightarrow> nat" where
  "wt_action (Report line) = 1"
| "wt_action (Submit a b fi) = wt fi + 2"

definition wt_queue :: "shared \<Rightarrow> nat" where
  "wt_queue s = sum_list (map wt_task (copyTasks s))"

definition weight :: "engine \<Rightarrow> nat" where
  "weight g = wt_queue (sh g) + sum_list (map wt_worker (workers g)) + sum_list (map wt_action (driver g))"

definition buffered :: "engine \<Rightarrow> nat" where
  "buffered g = sum_list (map (\<lambda>w. length (localTasks w)) (workers g))"

definition progress_order :: "(engine \<times> engine) set" where
  "progress_order = inv_image (less_than <*lex*> less_than) (\<lambda>g. (weight g, buffered g))"

text \<open>
  The tasks a worker has on its hands: those in its overflow buffer and the one it is
  carrying out. An entry is admissible when it is not a directory or recursion is on; a
  task is filled when it holds an admissible entry. The invariant of the engine: there
  are as many workers as \<^verbatim>\<open>cfg.parallelTasks\<close>; between two steps the pooled objects
  are all in one of the two channels (a step takes a receive together with the send that
  follows it; the objects are followed statement by statement further down); the tracker
  counts the tasks in \<^verbatim>\<open>copyTasks\<close> and on the workers' hands; every such task is filled;
  a worker walks a directory only when recursion is on; and what the driver has still to
  submit is admissible. \<open>kept\<close> is the share of one worker's step in it.
\<close>

definition pending :: "worker \<Rightarrow> nat" where
  "pending w = length (localTasks w) + (case pc w of Acquire \<Rightarrow> 0 | _ \<Rightarrow> 1)"

definition admissible :: "config \<Rightarrow> entry \<Rightarrow> bool" where
  "admissible cfg fi = (recursive cfg \<or> \<not> IsDir fi)"

definition filled :: "config \<Rightarrow> copyTask \<Rightarrow> bool" where
  "filled cfg ct = (case srcfi ct of None \<Rightarrow> False | Some fi \<Rightarrow> admissible cfg fi)"

definition worker_ok :: "config \<Rightarrow> worker \<Rightarrow> bool" where
  "worker_ok cfg w =
     (list_all (filled cfg) (localTasks w)
      \<and> (case pc w of
           Acquire \<Rightarrow> True
         | Execute a b info \<Rightarrow> (case info of None \<Rightarrow> False | Some fi \<Rightarrow> admissible cfg fi)
         | Range a b fis err bs lst e \<Rightarrow> recursive cfg))"

definition action_ok :: "config \<Rightarrow> action \<Rightarrow> bool" where
  "action_ok cfg act = (case act of Report line \<Rightarrow> True | Submit a b fi \<Rightarrow> admissible cfg fi)"

definition invariant :: "config \<Rightarrow> engine \<Rightarrow> bool" where
  "invariant cfg g =
     (length (workers g) = parallelTasks cfg
      \<and> length (freeCopyTasks (sh g)) + length (copyTasks (sh g)) = parallelTasks cfg
      \<and> wg (sh g) = int (length (copyTasks (sh g)) + sum_list (map pending (workers g)))
      \<and> list_all (filled cfg) (copyTasks (sh g))
      \<and> list_all (worker_ok cfg) (workers g)
      \<and> list_all (action_ok cfg) (driver g))"

definition kept :: "config \<Rightarrow> worker \<Rightarrow> shared \<Rightarrow> worker \<Rightarrow> shared \<Rightarrow> bool" where
  "kept cfg w s w' s' =
     (length (freeCopyTasks s') + length (copyTasks s') = length (freeCopyTasks s) + length (copyTasks s)
      \<and> wg s' + int (length (copyTasks s)) + int (pending w)
          = wg s + int (length (copyTasks s')) + int (pending w')
      \<and> worker_ok cfg w' \<and> list_all (filled cfg) (copyTasks s'))"

subsection \<open>The tracker along a task\<close>

text \<open>
  Two things a step of a worker can be, read off the place the worker stands at before
  and after it: the step ends the task the worker is carrying out (the worker was in a
  task and is back at the top of its loop, by \<^verbatim>\<open>continue\<close> or by reaching line 402), and
  the step visits one more entry of a directory listing (line 344, where line 347 calls
  \<^verbatim>\<open>wg.Add(1)\<close>).
\<close>

definition ends_task :: "worker \<Rightarrow> worker \<Rightarrow> bool" where
  "ends_task w w' = (pc w \<noteq> Acquire \<and> pc w' = Acquire)"

definition finds_child :: "worker \<Rightarrow> bool" where
  "finds_child w = (case pc w of Range a b (fi # rest) err bs lst e \<Rightarrow> True | _ \<Rightarrow> False)"

subsection \<open>What the calls leave at the destination\<close>







text \<open>
  The symbolic links that exist after the calls made for one task: for each call of
  \<^verbatim>\<open>os.Symlink\<close> that succeeds, the path of the link and its target string.
\<close>

definition links_made :: "entry \<Rightarrow> fsop list \<Rightarrow> (string \<times> string) list" where
  "links_made fi calls =
     concat (map (\<lambda>c. case c of
                         OpSymlink target p \<Rightarrow> if on_symlink fi = None then [(p, target)] else []
                       | _ \<Rightarrow> []) calls)"

subsection \<open>The task objects, one by one\<close>
















subsection \<open>The words of the specification\<close>


text \<open>The tasks the driver submits and the error lines it reports, in order.\<close>

fun submitted :: "action list \<Rightarrow> (string \<times> string \<times> entry) list" where
  "submitted [] = []"
| "submitted (Submit srcp dstp fi # acts) = (srcp, dstp, fi) # submitted acts"
| "submitted (Report line # acts) = submitted acts"

fun reported :: "action list \<Rightarrow> string list" where
  "reported [] = []"
| "reported (Submit srcp dstp fi # acts) = reported acts"
| "reported (Report line # acts) = line # reported acts"

text \<open>
  The multi-source policy in the specification's words: the policy error line; "the
  destination does not exist or is not a directory"; a valid source (it can be
  stat'ed, and it is not a directory while recursion is off); and one task per valid
  source, with the destination \<^verbatim>\<open>destination/basename(source)\<close>.
\<close>

definition policy_line :: "env \<Rightarrow> string \<Rightarrow> string" where
  "policy_line env dstp = ''target '' @ Quote env dstp @ '' is not a directory''"

definition missing_or_not_directory :: "env \<Rightarrow> string \<Rightarrow> bool" where
  "missing_or_not_directory env dstp =
     (case Stat env dstp of Inl err \<Rightarrow> IsNotExist err | Inr dstfi \<Rightarrow> \<not> IsDir dstfi)"

definition valid_source :: "env \<Rightarrow> config \<Rightarrow> string \<Rightarrow> bool" where
  "valid_source env cfg srcp =
     (case stat_src env cfg srcp of Inl err \<Rightarrow> False | Inr fi \<Rightarrow> \<not> (IsDir fi \<and> \<not> recursive cfg))"

definition spec_tasks :: "env \<Rightarrow> config \<Rightarrow> string \<Rightarrow> string list \<Rightarrow> (string \<times> string \<times> entry) list" where
  "spec_tasks env cfg dstp srcs =
     concat (map (\<lambda>srcp. case stat_src env cfg srcp of
                            Inl err \<Rightarrow> []
                          | Inr fi \<Rightarrow> [(srcp, Join env dstp (Base env srcp), fi)])
                 (filter (valid_source env cfg) srcs))"

subsection \<open>Sample inputs\<close>

text \<open>
  Entries for which every call succeeds (a regular file, a directory with the given
  batches, a symbolic link), a small world for \<^verbatim>\<open>os.Stat\<close> and \<^verbatim>\<open>os.Lstat\<close>, simple
  stand-ins for \<^verbatim>\<open>path.Join\<close>, \<^verbatim>\<open>path.Base\<close> and \<^verbatim>\<open>%q\<close> that agree with the library on
  plain relative paths, and a configuration. They are used to evaluate the program at
  concrete inputs.
\<close>

definition no_link :: "error + string" where
  "no_link = Inl (OsError OtherKind ''invalid argument'')"

definition file_entry :: "string \<Rightarrow> FileMode \<Rightarrow> entry" where
  "file_entry name perm = Entry name perm None None None [] [] EOF None None no_link None"

definition dir_entry :: "string \<Rightarrow> FileMode \<Rightarrow> entry list list \<Rightarrow> entry" where
  "dir_entry name perm batches =
     Entry name (ModeDir OR perm) None None None batches [] EOF None None no_link None"

definition link_entry :: "string \<Rightarrow> string \<Rightarrow> entry" where
  "link_entry name target =
     Entry name (ModeSymlink OR 0x1FF) None None None [] [] EOF None None (Inr target) None"

definition sample_stat :: "bool \<Rightarrow> string \<Rightarrow> error + entry" where
  "sample_stat follow p =
     (if p = ''d'' then Inr (dir_entry ''d'' 0x1ED [])
      else if p = ''f'' then Inr (file_entry ''f'' 0x1A4)
      else if p = ''g'' then Inr (file_entry ''g'' 0x1A4)
      else if p = ''l'' then Inr (if follow then file_entry ''l'' 0x1A4 else link_entry ''l'' ''f'')
      else if p = ''locked'' then Inl (OsError OtherKind ''permission denied'')
      else Inl (OsError NotExist ''no such file or directory''))"

definition sample_env :: env where
  "sample_env =
     \<lparr>Stat = sample_stat True, Lstat = sample_stat False,
      Join = (\<lambda>a b. a @ ''/'' @ b),
      Base = (\<lambda>p. rev (takeWhile (\<lambda>c. c \<noteq> CHR ''/'') (rev p))),
      Quote = (\<lambda>p. [CHR 0x22] @ p @ [CHR 0x22])\<rparr>"

definition sample_cfg :: config where
  "sample_cfg =
     \<lparr>verbosity = 0, noDereference = False, recursive = True, messageBuffer = 1000,
      errBuffer = 1000, parallelTasks = 1, readdirBuffer = 1000, copyBuffer = 65536,
      umask = 0x12, preserveLinks = False, preserveMode = False\<rparr>"

definition three_files :: entry where
  "three_files = dir_entry ''src'' 0x1ED [[file_entry ''a'' 0x1A4, file_entry ''b'' 0x1A4, file_entry ''c'' 0x1A4]]"

text \<open>
  Variants of the configuration: recursion off; preserve-mode on; no-dereference on; two
  workers and two pooled objects.
\<close>

definition flat_cfg :: config where
  "flat_cfg = sample_cfg\<lparr>recursive := False\<rparr>"


definition lstat_cfg :: config where
  "lstat_cfg = sample_cfg\<lparr>noDereference := True\<rparr>"

definition two_cfg :: config where
  "two_cfg = sample_cfg\<lparr>parallelTasks := 2\<rparr>"

text \<open>A regular file that opens for reading and whose destination cannot be created.\<close>

definition uncreatable :: "string \<Rightarrow> entry" where
  "uncreatable name =
     Entry name 0x1A4 None None None [] [] EOF (Some (OsError OtherKind ''permission denied'')) None
       no_link None"

text \<open>The tasks of the three files, a worker at the top of its loop with nothing
  buffered, and the shared state of a fresh engine that counts one task.\<close>

definition task_a :: copyTask where
  "task_a = \<lparr>src = ''src/a'', dst = ''dst/a'', srcfi = Some (file_entry ''a'' 0x1A4)\<rparr>"

definition task_b :: copyTask where
  "task_b = \<lparr>src = ''src/b'', dst = ''dst/b'', srcfi = Some (file_entry ''b'' 0x1A4)\<rparr>"

definition task_c :: copyTask where
  "task_c = \<lparr>src = ''src/c'', dst = ''dst/c'', srcfi = Some (file_entry ''c'' 0x1A4)\<rparr>"

definition idle_worker :: worker where
  "idle_worker = \<lparr>localTasks = [], pc = Acquire\<rparr>"

definition one_counted :: shared where
  "one_counted = (sh (init sample_cfg []))\<lparr>wg := 1\<rparr>"

text \<open>
  Runs on a directory with three files; the number picks the goroutine that moves among
  those that can (the driver first, then the workers in order).
  \<^item> \<open>sample_run\<close>: one worker and one pooled object, to the end. The worker publishes
    the first child and has to buffer the other two.
  \<^item> \<open>fallback_state\<close>: the same run, stopped when the worker is back at the top of
    its loop with two buffered tasks and an empty pool.
  \<^item> \<open>publish_state\<close>: two workers and two pooled objects. The first worker has published
    two children and buffered the third; the second worker has just taken the first
    child from the Work Queue.
  \<^item> \<open>seeded_state\<close>: one worker, right after the driver has submitted the directory.
  \<^item> \<open>flat_run\<close>: recursion off, the arguments \<^verbatim>\<open>f d d\<close> (a file and a directory to
    copy into the directory): the actions are those \<^verbatim>\<open>CPCP\<close> computes, and the run goes
    to the end; \<open>flat_mid\<close> is the same run stopped when the worker is about to
    carry out the task of the file.
\<close>

definition sample_run :: "engine option" where
  "sample_run = run sample_env sample_cfg [0,0,0,0,0,0,0,0,0,0,0,0,0,0]
     (init sample_cfg [Submit ''src'' ''dst'' three_files])"

definition fallback_state :: "engine option" where
  "fallback_state = run sample_env sample_cfg [0,0,0,0,0,0,0,0]
     (init sample_cfg [Submit ''src'' ''dst'' three_files])"

definition publish_state :: "engine option" where
  "publish_state = run sample_env two_cfg [0,0,0,0,0,0,0,0,1]
     (init two_cfg [Submit ''src'' ''dst'' three_files])"


definition flat_args :: "string list" where
  "flat_args = [''f'', ''d'', ''d'']"

definition flat_run :: "engine option" where
  "flat_run = run sample_env flat_cfg [0,0,0,0]
     (init flat_cfg [Submit ''f'' ''d/f'' (file_entry ''f'' 0x1A4),
                     Report (''omitting directory '' @ Quote sample_env ''d'')])"

definition flat_mid :: "engine option" where
  "flat_mid = run sample_env flat_cfg [0,0,0]
     (init flat_cfg [Submit ''f'' ''d/f'' (file_entry ''f'' 0x1A4),
                     Report (''omitting directory '' @ Quote sample_env ''d'')])"




text \<open>
  A symbolic link whose destination exists already (\<^verbatim>\<open>os.Symlink\<close> answers that the file
  exists), a world where \<^verbatim>\<open>l\<close> is that link, and the run of \<^verbatim>\<open>cpcp -P l f\<close> in it, to the
  end.
\<close>

definition taken_link :: entry where
  "taken_link =
     Entry ''l'' (ModeSymlink OR 0x1FF) None None None [] [] EOF None None (Inr ''g'')
       (Some (OsError Exist ''file exists''))"

definition taken_env :: env where
  "taken_env = sample_env\<lparr>Lstat := (\<lambda>p. if p = ''l'' then Inr taken_link else sample_stat False p)\<rparr>"

definition taken_run :: "engine option" where
  "taken_run = run taken_env lstat_cfg [0,0,0]
     (init lstat_cfg [Submit ''l'' ''f'' taken_link])"



section \<open>Properties\<close>

subsection \<open>Every step lowers the work left\<close>

lemma wt_eq: "wt fi = 1 + stream (on_readdir fi) (on_readdir_last fi)"
  by (cases fi) (simp add: stream_def kids_def)

lemma kids_Cons: "kids (c # cs) = wt c + 2 + kids cs"
  by (simp add: kids_def)

lemma kids_Nil: "kids [] = 0"
  by (simp add: kids_def)

lemma stream_Cons: "stream (b # bs) lst = 1 + kids b + stream bs lst"
  by (simp add: stream_def)

lemma stream_Nil: "stream [] lst = kids lst + 1"
  by (simp add: stream_def)

lemma sum_list_butlast:
  "xs \<noteq> [] \<Longrightarrow> sum_list (map f (butlast xs)) + f (last xs) = sum_list (map (f :: 'a \<Rightarrow> nat) xs)"
  by (induction xs) auto

lemma enter_readdir_weight:
  "enter_readdir srcp dstp bs lst e w s = (w', s') \<Longrightarrow>
     wt_pc (pc w') = stream bs lst \<and> localTasks w' = localTasks w \<and> copyTasks s' = copyTasks s"
  by (cases bs) (auto simp: enter_readdir_def readdir_def call_def stream_Cons stream_Nil)

lemma acquire_decreases:
  assumes "acquire cfg w s = Step (w', s')" "pc w = Acquire"
  shows "wt_queue s' + wt_worker w' < wt_queue s + wt_worker w
       \<or> (wt_queue s' + wt_worker w' = wt_queue s + wt_worker w \<and> length (localTasks w') < length (localTasks w))"
proof (cases "localTasks w = []")
  case True
  with assms show ?thesis
    by (auto simp: acquire_def recv_def send_def wt_queue_def wt_worker_def wt_task_def
        split: list.splits if_splits option.splits)
next
  case False
  from sum_list_butlast [OF False, of wt_task]
  have eq: "sum_list (map wt_task (butlast (localTasks w))) + wt_task (last (localTasks w)) = sum_list (map wt_task (localTasks w))" .
  from False assms eq show ?thesis
    by (auto simp: acquire_def recv_def send_def wt_queue_def wt_worker_def wt_task_def Let_def
        split: list.splits if_splits option.splits)
qed

lemma copy_directory_weight:
  assumes "copy_directory env cfg srcp dstp fi w s = (w', s')"
  shows "copyTasks s' = copyTasks s \<and> localTasks w' = localTasks w \<and> wt_pc (pc w') < wt fi"
proof (cases "recursive cfg")
  case False
  with assms show ?thesis
    by (cases fi) (auto simp: copy_directory_def report_def)
next
  case True
  show ?thesis
  proof (cases "on_open fi")
    case (Some err)
    with True assms show ?thesis
      by (cases fi) (auto simp: copy_directory_def Let_def report_def wg_Done_def call_def split: option.splits if_splits)
  next
    case None
    with True assms obtain s0 where
      "enter_readdir srcp dstp (on_readdir fi) (on_readdir_last fi) (on_readdir_err fi) w s0 = (w', s')"
      "copyTasks s0 = copyTasks s"
      by (auto simp: copy_directory_def Let_def report_def call_def fd_open_def split: option.splits if_splits)
    with enter_readdir_weight [of srcp dstp "on_readdir fi" "on_readdir_last fi" "on_readdir_err fi" w s0 w' s']
    show ?thesis by (simp add: wt_eq)
  qed
qed

lemma copy_regular_queue: "copyTasks (copy_regular cfg srcp dstp fi s) = copyTasks s"
  by (simp add: copy_regular_def Let_def report_def call_def fd_open_def fd_close_def split: option.splits)

lemma copy_symlink_queue: "copyTasks (copy_symlink srcp dstp fi s) = copyTasks s"
  by (simp add: copy_symlink_def Let_def report_def call_def split: option.splits sum.splits)

lemma wt_pos: "0 < wt fi"
  by (simp add: wt_eq)

lemma execute_decreases:
  assumes "execute env cfg srcp dstp info w s = Step (w', s')" "pc w = Execute srcp dstp info"
  shows "wt_queue s' + wt_worker w' < wt_queue s + wt_worker w"
proof (cases info)
  case None
  with assms show ?thesis by (simp add: execute_def Let_def)
next
  case (Some fi)
  show ?thesis
  proof (cases "IsDir fi")
    case True
    with Some assms obtain s0 where "copy_directory env cfg srcp dstp fi w s0 = (w', s')" "copyTasks s0 = copyTasks s"
      by (auto simp: execute_def Let_def say_def split: if_splits)
    with copy_directory_weight [of env cfg srcp dstp fi w s0 w' s'] Some assms(2)
    show ?thesis by (simp add: wt_queue_def wt_worker_def)
  next
    case False
    with Some assms wt_pos [of fi] show ?thesis
      by (auto simp: execute_def Let_def say_def wg_Done_def wt_queue_def wt_worker_def
          copy_regular_queue copy_symlink_queue split: if_splits)
  qed
qed

lemma range_step_decreases:
  assumes "range_step env cfg srcp dstp fis err bs lst e w s = Step (w', s')"
    "pc w = Range srcp dstp fis err bs lst e"
  shows "wt_queue s' + wt_worker w' < wt_queue s + wt_worker w"
proof (cases fis)
  case (Cons fi rest)
  with assms show ?thesis
    by (auto simp: range_step_def Let_def wg_Add_def recv_def send_def wt_queue_def wt_worker_def
        wt_task_def kids_Cons split: list.splits option.splits if_splits)
next
  case Nil
  show ?thesis
  proof (cases err)
    case (Some er)
    with Nil assms show ?thesis
      by (auto simp: range_step_def Let_def wg_Done_def report_def fd_close_def call_def
          wt_queue_def wt_worker_def kids_Nil split: if_splits)
  next
    case None
    with Nil assms have "enter_readdir srcp dstp bs lst e w s = (w', s')"
      by (simp add: range_step_def)
    with enter_readdir_weight [of srcp dstp bs lst e w s w' s'] Nil None assms(2)
    show ?thesis by (simp add: wt_queue_def wt_worker_def kids_Nil)
  qed
qed

lemma worker_step_decreases:
  assumes "worker_step env cfg w s = Step (w', s')"
  shows "wt_queue s' + wt_worker w' < wt_queue s + wt_worker w
       \<or> (wt_queue s' + wt_worker w' = wt_queue s + wt_worker w \<and> length (localTasks w') < length (localTasks w))"
proof (cases "pc w")
  case Acquire
  with assms acquire_decreases [of cfg w s w' s'] show ?thesis
    by (simp add: worker_step_def)
next
  case (Execute srcp dstp info)
  with assms execute_decreases [of env cfg srcp dstp info w s w' s'] show ?thesis
    by (simp add: worker_step_def)
next
  case (Range srcp dstp fis err bs lst e)
  with assms range_step_decreases [of env cfg srcp dstp fis err bs lst e w s w' s'] show ?thesis
    by (simp add: worker_step_def)
qed

lemma sum_list_map_update:
  "i < length xs \<Longrightarrow> sum_list (map f (xs[i := y])) + f (xs ! i) = sum_list (map (f :: 'a \<Rightarrow> nat) xs) + f y"
proof (induction xs arbitrary: i)
  case Nil
  then show ?case by simp
next
  case (Cons x xs)
  then show ?case by (cases i) auto
qed

lemma wf_progress_order: "wf progress_order"
  unfolding progress_order_def
  by (intro wf_inv_image wf_lex_prod wf_less_than)

lemma driver_step_decreases:
  assumes "driver_step cfg g = Step g'"
  shows "weight g' < weight g"
proof (cases "driver g")
  case Nil
  with assms show ?thesis by (simp add: driver_step_def)
next
  case (Cons a rest)
  show ?thesis
  proof (cases a)
    case (Report line)
    with Cons assms show ?thesis
      by (auto simp: driver_step_def weight_def wt_queue_def report_def)
  next
    case (Submit srcp dstp fi)
    with Cons assms show ?thesis
      by (auto simp: driver_step_def weight_def wt_queue_def wg_Add_def recv_def send_def Let_def
          wt_task_def split: list.splits option.splits if_splits)
  qed
qed

lemma worker_succ_decreases:
  assumes "g' \<in> set (worker_succ env cfg g i)" "i < length (workers g)"
  shows "(g', g) \<in> progress_order"
proof -
  from assms(1) have "\<exists>w' s'. worker_step env cfg (workers g ! i) (sh g) = Step (w', s')
      \<and> g' = g\<lparr>sh := s', workers := (workers g)[i := w']\<rparr>"
    by (cases "worker_step env cfg (workers g ! i) (sh g)") (auto simp: worker_succ_def)
  then obtain w' s' where
    st: "worker_step env cfg (workers g ! i) (sh g) = Step (w', s')"
    and g': "g' = g\<lparr>sh := s', workers := (workers g)[i := w']\<rparr>"
    by blast
  let ?w = "workers g ! i"
  from sum_list_map_update [OF assms(2), of wt_worker w']
  have W: "sum_list (map wt_worker ((workers g)[i := w'])) + wt_worker ?w
         = sum_list (map wt_worker (workers g)) + wt_worker w'" .
  from sum_list_map_update [OF assms(2), of "\<lambda>w. length (localTasks w)" w']
  have L: "sum_list (map (\<lambda>w. length (localTasks w)) ((workers g)[i := w'])) + length (localTasks ?w)
         = sum_list (map (\<lambda>w. length (localTasks w)) (workers g)) + length (localTasks w')" .
  from worker_step_decreases [OF st]
  have "weight g' < weight g \<or> (weight g' = weight g \<and> buffered g' < buffered g)"
    using W L by (auto simp: g' weight_def buffered_def)
  then show ?thesis by (auto simp: progress_order_def)
qed

lemma successors_decrease:
  assumes "g' \<in> set (successors env cfg g)"
  shows "(g', g) \<in> progress_order"
proof -
  from assms consider
    (drv) "driver_step cfg g = Step g'"
    | (wrk) i where "i < length (workers g)" "g' \<in> set (worker_succ env cfg g i)"
    by (auto simp: successors_def split: outcome.splits)
  then show ?thesis
  proof cases
    case drv
    from driver_step_decreases [OF drv] show ?thesis by (simp add: progress_order_def)
  next
    case wrk
    then show ?thesis by (simp add: worker_succ_decreases)
  qed
qed

lemma wf_successors: "wf {(g', g). g' \<in> set (successors env cfg g)}"
  by (rule wf_subset [OF wf_progress_order]) (auto simp: successors_decrease)

subsection \<open>The invariant\<close>

lemma list_all_butlast: "list_all P xs \<Longrightarrow> list_all P (butlast xs)"
  by (induction xs) auto

lemma list_all_last: "list_all P xs \<Longrightarrow> xs \<noteq> [] \<Longrightarrow> P (last xs)"
  by (induction xs) auto

lemma acquire_kept:
  assumes "acquire cfg w s = Step (w', s')" "pc w = Acquire" "worker_ok cfg w" "list_all (filled cfg) (copyTasks s)"
  shows "kept cfg w s w' s'"
proof (cases "localTasks w = []")
  case True
  with assms show ?thesis
    by (auto simp: acquire_def recv_def send_def kept_def pending_def worker_ok_def filled_def
        split: list.splits if_splits option.splits)
next
  case False
  from assms(3) have all: "list_all (filled cfg) (localTasks w)" by (simp add: worker_ok_def)
  from False have pos: "int (length (localTasks w) - Suc 0) + 1 = int (length (localTasks w))"
    by (cases "localTasks w") auto
  note facts = list_all_butlast [OF all] list_all_last [OF all False] pos
  from False assms facts show ?thesis
    by (auto simp: acquire_def recv_def send_def kept_def pending_def worker_ok_def filled_def Let_def
        split: list.splits if_splits option.splits)
qed

lemma enter_readdir_kept:
  assumes "enter_readdir srcp dstp bs lst e w s = (w', s')"
  shows "freeCopyTasks s' = freeCopyTasks s \<and> copyTasks s' = copyTasks s \<and> wg s' = wg s
       \<and> localTasks w' = localTasks w \<and> pc w' \<noteq> Acquire \<and> (\<forall>a b i. pc w' \<noteq> Execute a b i)"
  using assms by (cases bs) (auto simp: enter_readdir_def readdir_def call_def)

lemma copy_regular_kept:
  "freeCopyTasks (copy_regular cfg srcp dstp fi s) = freeCopyTasks s
   \<and> copyTasks (copy_regular cfg srcp dstp fi s) = copyTasks s
   \<and> wg (copy_regular cfg srcp dstp fi s) = wg s"
  by (simp add: copy_regular_def Let_def report_def call_def fd_open_def fd_close_def split: option.splits)

lemma copy_symlink_kept:
  "freeCopyTasks (copy_symlink srcp dstp fi s) = freeCopyTasks s
   \<and> copyTasks (copy_symlink srcp dstp fi s) = copyTasks s
   \<and> wg (copy_symlink srcp dstp fi s) = wg s"
  by (simp add: copy_symlink_def Let_def report_def call_def split: option.splits sum.splits)

lemma copy_directory_kept:
  assumes "copy_directory env cfg srcp dstp fi w s = (w', s')" "recursive cfg"
  shows "freeCopyTasks s' = freeCopyTasks s \<and> copyTasks s' = copyTasks s
       \<and> localTasks w' = localTasks w
       \<and> ((pc w' = Acquire \<and> wg s' = wg s - 1)
          \<or> (pc w' \<noteq> Acquire \<and> (\<forall>a b i. pc w' \<noteq> Execute a b i) \<and> wg s' = wg s))"
proof (cases "on_open fi")
  case (Some err)
  with assms show ?thesis
    by (auto simp: copy_directory_def Let_def report_def wg_Done_def call_def split: option.splits if_splits)
next
  case None
  with assms obtain s0 where
    e: "enter_readdir srcp dstp (on_readdir fi) (on_readdir_last fi) (on_readdir_err fi) w s0 = (w', s')"
    and s0: "copyTasks s0 = copyTasks s" "freeCopyTasks s0 = freeCopyTasks s" "wg s0 = wg s"
    by (auto simp: copy_directory_def Let_def report_def call_def fd_open_def split: option.splits if_splits)
  from enter_readdir_kept [OF e] s0 show ?thesis by simp
qed

lemma execute_kept:
  assumes "execute env cfg srcp dstp info w s = Step (w', s')" "pc w = Execute srcp dstp info"
    "worker_ok cfg w" "list_all (filled cfg) (copyTasks s)"
  shows "kept cfg w s w' s'"
proof (cases info)
  case None
  with assms show ?thesis by (simp add: execute_def Let_def)
next
  case (Some fi)
  show ?thesis
  proof (cases "IsDir fi")
    case True
    with Some assms obtain s0 where
      c: "copy_directory env cfg srcp dstp fi w s0 = (w', s')"
      and s0: "copyTasks s0 = copyTasks s" "freeCopyTasks s0 = freeCopyTasks s" "wg s0 = wg s"
      by (auto simp: execute_def Let_def say_def split: if_splits)
    from True Some assms(2,3) have r: "recursive cfg"
      by (simp add: worker_ok_def admissible_def)
    from copy_directory_kept [OF c r] s0 r assms(2,3,4) show ?thesis
      by (auto simp: kept_def pending_def worker_ok_def split: pc.splits)
  next
    case False
    with Some assms show ?thesis
      by (auto simp: execute_def Let_def say_def wg_Done_def kept_def pending_def worker_ok_def
          copy_regular_kept copy_symlink_kept split: if_splits)
  qed
qed

lemma range_step_kept:
  assumes "range_step env cfg srcp dstp fis err bs lst e w s = Step (w', s')"
    "pc w = Range srcp dstp fis err bs lst e" "worker_ok cfg w" "list_all (filled cfg) (copyTasks s)"
  shows "kept cfg w s w' s'"
proof (cases fis)
  case (Cons fi rest)
  with assms show ?thesis
    by (auto simp: range_step_def Let_def wg_Add_def recv_def send_def kept_def pending_def
        worker_ok_def filled_def admissible_def split: list.splits option.splits if_splits)
next
  case Nil
  show ?thesis
  proof (cases err)
    case (Some er)
    with Nil assms show ?thesis
      by (auto simp: range_step_def Let_def wg_Done_def report_def fd_close_def call_def
          kept_def pending_def worker_ok_def split: if_splits)
  next
    case None
    with Nil assms have e: "enter_readdir srcp dstp bs lst e w s = (w', s')"
      by (simp add: range_step_def)
    from enter_readdir_kept [OF e] assms(2,3,4) show ?thesis
      by (auto simp: kept_def pending_def worker_ok_def split: pc.splits)
  qed
qed

lemma worker_step_kept:
  assumes "worker_step env cfg w s = Step (w', s')" "worker_ok cfg w"
    "list_all (filled cfg) (copyTasks s)"
  shows "kept cfg w s w' s'"
proof (cases "pc w")
  case Acquire
  with assms acquire_kept [of cfg w s w' s'] show ?thesis
    by (simp add: worker_step_def)
next
  case (Execute srcp dstp info)
  with assms execute_kept [of env cfg srcp dstp info w s w' s'] show ?thesis
    by (simp add: worker_step_def)
next
  case (Range srcp dstp fis err bs lst e)
  with assms range_step_kept [of env cfg srcp dstp fis err bs lst e w s w' s'] show ?thesis
    by (simp add: worker_step_def)
qed

lemma invariant_init: "list_all (action_ok cfg) acts \<Longrightarrow> invariant cfg (init cfg acts)"
  by (simp add: invariant_def init_def pending_def worker_ok_def list_all_iff sum_list_replicate)

lemma recursive_actions_ok: "recursive cfg \<Longrightarrow> list_all (action_ok cfg) acts"
  by (simp add: list_all_iff action_ok_def admissible_def split: action.splits)

lemma driver_step_invariant:
  assumes "invariant cfg g" "driver_step cfg g = Step g'"
  shows "invariant cfg g'"
proof (cases "driver g")
  case Nil
  with assms show ?thesis by (simp add: driver_step_def)
next
  case (Cons a rest)
  show ?thesis
  proof (cases a)
    case (Report line)
    with Cons assms show ?thesis
      by (auto simp: driver_step_def invariant_def report_def)
  next
    case (Submit srcp dstp fi)
    with Cons assms show ?thesis
      by (auto simp: driver_step_def invariant_def wg_Add_def recv_def send_def Let_def filled_def
          action_ok_def
          split: list.splits option.splits if_splits)
  qed
qed

lemma list_all_nth: "list_all P xs \<Longrightarrow> i < length xs \<Longrightarrow> P (xs ! i)"
  by (simp add: list_all_length)

lemma list_all_update: "list_all P xs \<Longrightarrow> P y \<Longrightarrow> list_all P (xs[i := y])"
  by (auto simp: list_all_iff dest: set_update_subset_insert [THEN subsetD])

lemma worker_succ_invariant:
  assumes "invariant cfg g" "i < length (workers g)"
    "g' \<in> set (worker_succ env cfg g i)"
  shows "invariant cfg g'"
proof -
  from assms(3) have "\<exists>w' s'. worker_step env cfg (workers g ! i) (sh g) = Step (w', s')
      \<and> g' = g\<lparr>sh := s', workers := (workers g)[i := w']\<rparr>"
    by (cases "worker_step env cfg (workers g ! i) (sh g)") (auto simp: worker_succ_def)
  then obtain w' s' where
    st: "worker_step env cfg (workers g ! i) (sh g) = Step (w', s')"
    and g': "g' = g\<lparr>sh := s', workers := (workers g)[i := w']\<rparr>"
    by blast
  let ?w = "workers g ! i"
  from assms(1) have ok: "list_all (worker_ok cfg) (workers g)" and q: "list_all (filled cfg) (copyTasks (sh g))"
    by (simp_all add: invariant_def)
  from list_all_nth [OF ok assms(2)] have wok: "worker_ok cfg ?w" .
  from worker_step_kept [OF st wok q] have k: "kept cfg ?w (sh g) w' s'" .
  from sum_list_map_update [OF assms(2), of pending w']
  have P: "sum_list (map pending ((workers g)[i := w'])) + pending ?w
         = sum_list (map pending (workers g)) + pending w'" .
  from k have ok': "list_all (worker_ok cfg) ((workers g)[i := w'])"
    by (simp add: kept_def list_all_update [OF ok])
  from assms(1) k P ok' show ?thesis
    by (auto simp: g' invariant_def kept_def)
qed

lemma successors_cases:
  assumes "g' \<in> set (successors env cfg g)"
  shows "driver_step cfg g = Step g' \<or> (\<exists>i < length (workers g). g' \<in> set (worker_succ env cfg g i))"
  using assms by (auto simp: successors_def split: outcome.splits)

lemma successors_invariant:
  assumes "invariant cfg g" "g' \<in> set (successors env cfg g)"
  shows "invariant cfg g'"
  using successors_cases [OF assms(2)] assms(1)
  by (auto intro: driver_step_invariant worker_succ_invariant)

lemma reaches_invariant:
  assumes "reaches env cfg (init cfg acts) g" "list_all (action_ok cfg) acts"
  shows "invariant cfg g"
  using assms
proof (induction rule: reaches.induct)
  case start
  then show ?case by (rule invariant_init)
next
  case (step g g')
  then show ?case by (auto intro: successors_invariant)
qed

lemma tracker_not_negative:
  assumes "reaches env cfg (init cfg acts) g" "list_all (action_ok cfg) acts"
  shows "0 \<le> wg (sh g)"
  using reaches_invariant [OF assms] by (simp add: invariant_def)

subsection \<open>What holds up a goroutine\<close>

lemma acquire_progress:
  assumes "length (freeCopyTasks s) + length (copyTasks s) \<le> parallelTasks cfg"
  shows "(\<exists>x. acquire cfg w s = Step x)
       \<or> (acquire cfg w s = BlockedOnReceive \<and> localTasks w = [] \<and> copyTasks s = [])"
  using assms
  by (auto simp: acquire_def recv_def send_def Let_def split: list.splits option.splits)

lemma range_step_progress:
  assumes "length (freeCopyTasks s) + length (copyTasks s) \<le> parallelTasks cfg"
  shows "\<exists>x. range_step env cfg srcp dstp fis err bs lst e w s = Step x"
  using assms
  by (auto simp: range_step_def recv_def send_def Let_def wg_Add_def split: list.splits option.splits)

lemma execute_progress: "\<exists>x. execute env cfg srcp dstp (Some fi) w s = Step x"
  by (simp add: execute_def Let_def)

lemma worker_step_progress:
  assumes "length (freeCopyTasks s) + length (copyTasks s) \<le> parallelTasks cfg" "worker_ok cfg w"
  shows "(\<exists>x. worker_step env cfg w s = Step x)
       \<or> (worker_step env cfg w s = BlockedOnReceive \<and> pc w = Acquire \<and> localTasks w = [] \<and> copyTasks s = [])"
proof (cases "pc w")
  case Acquire
  with acquire_progress [OF assms(1), of w] show ?thesis by (simp add: worker_step_def)
next
  case (Execute srcp dstp info)
  with assms(2) obtain fi where "info = Some fi"
    by (cases info) (auto simp: worker_ok_def)
  with Execute execute_progress [of env cfg srcp dstp fi w s] show ?thesis
    by (simp add: worker_step_def)
next
  case (Range srcp dstp fis err bs lst e)
  with range_step_progress [OF assms(1), of env srcp dstp fis err bs lst e w] show ?thesis
    by (simp add: worker_step_def)
qed

lemma driver_step_progress:
  assumes "freeCopyTasks (sh g) \<noteq> []" "length (freeCopyTasks (sh g)) + length (copyTasks (sh g)) \<le> parallelTasks cfg"
  shows "(\<exists>x. driver_step cfg g = Step x) \<or> driver g = []"
  using assms
  by (auto simp: driver_step_def recv_def send_def Let_def wg_Add_def split: list.splits option.splits action.splits)

lemma stuck_worker:
  assumes "invariant cfg g" "successors env cfg g = []" "i < length (workers g)"
  shows "pc (workers g ! i) = Acquire \<and> localTasks (workers g ! i) = [] \<and> copyTasks (sh g) = []"
proof -
  from assms(2,3) have "worker_succ env cfg g i = []"
    by (auto simp: successors_def)
  then have no: "\<not> (\<exists>x. worker_step env cfg (workers g ! i) (sh g) = Step x)"
    by (auto simp: worker_succ_def)
  from assms(1) have "list_all (worker_ok cfg) (workers g)"
    and b: "length (freeCopyTasks (sh g)) + length (copyTasks (sh g)) \<le> parallelTasks cfg"
    by (simp_all add: invariant_def)
  with assms(3) have "worker_ok cfg (workers g ! i)" by (simp add: list_all_nth)
  from worker_step_progress [OF b this, of env] no show ?thesis by blast
qed

lemma stuck_finished:
  assumes "invariant cfg g" "0 < parallelTasks cfg" "successors env cfg g = []"
  shows "finished g"
proof -
  from assms(1) have n: "length (workers g) = parallelTasks cfg"
    and b: "length (freeCopyTasks (sh g)) + length (copyTasks (sh g)) = parallelTasks cfg"
    and c: "wg (sh g) = int (length (copyTasks (sh g)) + sum_list (map pending (workers g)))"
    by (simp_all add: invariant_def)
  from n assms(2) have "0 < length (workers g)" by simp
  from stuck_worker [OF assms(1,3) this] have q: "copyTasks (sh g) = []" by simp
  have "\<forall>w \<in> set (workers g). pending w = 0"
  proof
    fix w assume "w \<in> set (workers g)"
    then obtain i where "i < length (workers g)" "w = workers g ! i"
      by (auto simp: in_set_conv_nth)
    with stuck_worker [OF assms(1,3), of i] show "pending w = 0"
      by (simp add: pending_def)
  qed
  then have "sum_list (map pending (workers g)) = 0" by simp
  with c q have zero: "wg (sh g) = 0" by simp
  from b q assms(2) have free: "freeCopyTasks (sh g) \<noteq> []" by auto
  from b have le: "length (freeCopyTasks (sh g)) + length (copyTasks (sh g)) \<le> parallelTasks cfg" by simp
  from assms(3) have "\<not> (\<exists>x. driver_step cfg g = Step x)"
    by (auto simp: successors_def)
  with driver_step_progress [OF free le] have "driver g = []" by blast
  with zero show ?thesis by (simp add: finished_def)
qed

subsection \<open>The pooled objects stay in the channels\<close>

lemma acquire_conserves:
  "acquire cfg w s = Step (w', s') \<Longrightarrow>
     length (freeCopyTasks s') + length (copyTasks s') = length (freeCopyTasks s) + length (copyTasks s)"
  by (auto simp: acquire_def recv_def send_def Let_def split: list.splits option.splits if_splits)

lemma enter_readdir_channels:
  "enter_readdir srcp dstp bs lst e w s = (w', s') \<Longrightarrow>
     freeCopyTasks s' = freeCopyTasks s \<and> copyTasks s' = copyTasks s"
  by (cases bs) (auto simp: enter_readdir_def readdir_def call_def)

lemma copy_directory_channels:
  assumes "copy_directory env cfg srcp dstp fi w s = (w', s')"
  shows "freeCopyTasks s' = freeCopyTasks s \<and> copyTasks s' = copyTasks s"
proof (cases "recursive cfg \<and> on_open fi = None")
  case False
  with assms show ?thesis
    by (auto simp: copy_directory_def Let_def report_def wg_Done_def call_def split: option.splits if_splits)
next
  case True
  with assms obtain s0 where
    e: "enter_readdir srcp dstp (on_readdir fi) (on_readdir_last fi) (on_readdir_err fi) w s0 = (w', s')"
    and s0: "copyTasks s0 = copyTasks s" "freeCopyTasks s0 = freeCopyTasks s"
    by (auto simp: copy_directory_def Let_def report_def call_def fd_open_def split: option.splits if_splits)
  from enter_readdir_channels [OF e] s0 show ?thesis by simp
qed

lemma execute_conserves:
  assumes "execute env cfg srcp dstp info w s = Step (w', s')"
  shows "freeCopyTasks s' = freeCopyTasks s \<and> copyTasks s' = copyTasks s"
proof (cases info)
  case None
  with assms show ?thesis by (simp add: execute_def Let_def)
next
  case (Some fi)
  show ?thesis
  proof (cases "IsDir fi")
    case True
    with Some assms obtain s0 where
      c: "copy_directory env cfg srcp dstp fi w s0 = (w', s')"
      and s0: "copyTasks s0 = copyTasks s" "freeCopyTasks s0 = freeCopyTasks s"
      by (auto simp: execute_def Let_def say_def split: if_splits)
    from copy_directory_channels [OF c] s0 show ?thesis by simp
  next
    case False
    with Some assms show ?thesis
      by (auto simp: execute_def Let_def say_def wg_Done_def copy_regular_kept copy_symlink_kept
          split: if_splits)
  qed
qed

lemma range_step_conserves:
  assumes "range_step env cfg srcp dstp fis err bs lst e w s = Step (w', s')"
  shows "length (freeCopyTasks s') + length (copyTasks s') = length (freeCopyTasks s) + length (copyTasks s)"
proof (cases "fis = [] \<and> err = None")
  case True
  with assms have "enter_readdir srcp dstp bs lst e w s = (w', s')"
    by (simp add: range_step_def)
  from enter_readdir_channels [OF this] show ?thesis by simp
next
  case False
  with assms show ?thesis
    by (auto simp: range_step_def Let_def wg_Add_def wg_Done_def report_def fd_close_def call_def
        recv_def send_def split: list.splits option.splits if_splits)
qed

lemma worker_step_conserves:
  assumes "worker_step env cfg w s = Step (w', s')"
  shows "length (freeCopyTasks s') + length (copyTasks s') = length (freeCopyTasks s) + length (copyTasks s)"
proof (cases "pc w")
  case Acquire
  with assms acquire_conserves [of cfg w s w' s'] show ?thesis by (simp add: worker_step_def)
next
  case (Execute srcp dstp info)
  with assms execute_conserves [of env cfg srcp dstp info w s w' s'] show ?thesis
    by (simp add: worker_step_def)
next
  case (Range srcp dstp fis err bs lst e)
  with assms range_step_conserves [of env cfg srcp dstp fis err bs lst e w s w' s'] show ?thesis
    by (simp add: worker_step_def)
qed

lemma driver_step_conserves:
  assumes "driver_step cfg g = Step g'"
  shows "length (freeCopyTasks (sh g')) + length (copyTasks (sh g'))
       = length (freeCopyTasks (sh g)) + length (copyTasks (sh g))"
  using assms
  by (auto simp: driver_step_def report_def wg_Add_def recv_def send_def Let_def
      split: list.splits option.splits action.splits if_splits)

lemma successors_conserve:
  assumes "g' \<in> set (successors env cfg g)"
  shows "length (freeCopyTasks (sh g')) + length (copyTasks (sh g'))
       = length (freeCopyTasks (sh g)) + length (copyTasks (sh g))"
proof -
  from successors_cases [OF assms] show ?thesis
  proof
    assume "driver_step cfg g = Step g'"
    then show ?thesis by (rule driver_step_conserves)
  next
    assume "\<exists>i<length (workers g). g' \<in> set (worker_succ env cfg g i)"
    then obtain i where "g' \<in> set (worker_succ env cfg g i)" by blast
    then have "\<exists>w' s'. worker_step env cfg (workers g ! i) (sh g) = Step (w', s')
        \<and> g' = g\<lparr>sh := s', workers := (workers g)[i := w']\<rparr>"
      by (cases "worker_step env cfg (workers g ! i) (sh g)") (auto simp: worker_succ_def)
    then obtain w' s' where "worker_step env cfg (workers g ! i) (sh g) = Step (w', s')"
      "g' = g\<lparr>sh := s', workers := (workers g)[i := w']\<rparr>" by blast
    with worker_step_conserves [of env cfg "workers g ! i" "sh g" w' s'] show ?thesis by simp
  qed
qed

lemma pool_conserved:
  assumes "reaches env cfg (init cfg acts) g"
  shows "length (freeCopyTasks (sh g)) + length (copyTasks (sh g)) = parallelTasks cfg"
  using assms
proof (induction rule: reaches.induct)
  case start
  show ?case by (simp add: init_def)
next
  case (step g g')
  with successors_conserve [of g' env cfg g] show ?case by simp
qed

subsection \<open>The task objects stay where the program puts them\<close>























subsection \<open>The tracker, branch by branch\<close>

lemma task_done_once:
  assumes "execute env cfg srcp dstp (Some fi) w s = Step (w', s')"
  shows "(\<not> IsDir fi \<longrightarrow> pc w' = Acquire \<and> wg s' = wg s - 1)
       \<and> (IsDir fi \<and> recursive cfg \<and> on_open fi \<noteq> None \<longrightarrow> pc w' = Acquire \<and> wg s' = wg s - 1)
       \<and> (IsDir fi \<and> recursive cfg \<and> on_open fi = None \<longrightarrow> pc w' \<noteq> Acquire \<and> wg s' = wg s)
       \<and> (IsDir fi \<and> \<not> recursive cfg \<longrightarrow> pc w' = Acquire \<and> wg s' = wg s)"
proof (cases "IsDir fi")
  case False
  with assms show ?thesis
    by (auto simp: execute_def Let_def say_def wg_Done_def copy_regular_kept copy_symlink_kept
        split: if_splits)
next
  case True
  with assms obtain s0 where c: "copy_directory env cfg srcp dstp fi w s0 = (w', s')"
    and s0: "wg s0 = wg s"
    by (auto simp: execute_def Let_def say_def split: if_splits)
  show ?thesis
  proof (cases "recursive cfg")
    case False
    with c s0 True show ?thesis by (auto simp: copy_directory_def report_def)
  next
    case r: True
    show ?thesis
    proof (cases "on_open fi")
      case (Some err)
      with c s0 r True show ?thesis
        by (auto simp: copy_directory_def Let_def report_def wg_Done_def call_def
            split: option.splits if_splits)
    next
      case None
      with copy_directory_kept [OF c r] c s0 r True show ?thesis
        by (auto simp: copy_directory_def Let_def enter_readdir_def readdir_def
            split: option.splits if_splits list.splits)
    qed
  qed
qed

lemma listing_done_once:
  assumes "range_step env cfg srcp dstp [] (Some er) bs lst e w s = Step (w', s')"
  shows "pc w' = Acquire \<and> wg s' = wg s - 1"
  using assms
  by (auto simp: range_step_def Let_def wg_Done_def report_def fd_close_def call_def split: if_splits)

lemma source_action_ok: "action_ok cfg (source_action env cfg p d line)"
  by (auto simp: source_action_def action_ok_def admissible_def split: sum.splits)

lemma each_source_ok: "list_all (action_ok cfg) (each_source env cfg dstp srcs)"
  by (induction srcs) (simp_all add: source_action_ok)

lemma CPCP_actions_ok:
  assumes "CPCP_actions env cfg args = Inr acts"
  shows "list_all (action_ok cfg) acts"
proof -
  from assms have "acts = single_source env cfg (hd (butlast args)) (last args)
      \<or> acts = multi_source env cfg (butlast args) (last args)"
    by (cases args; cases "tl args") (auto simp: CPCP_actions_def Let_def split: if_splits)
  then show ?thesis
  proof
    assume "acts = single_source env cfg (hd (butlast args)) (last args)"
    then show ?thesis by (simp add: single_source_def Let_def source_action_ok)
  next
    assume "acts = multi_source env cfg (butlast args) (last args)"
    then show ?thesis
      by (simp add: multi_source_def each_source_ok action_ok_def split: sum.splits)
  qed
qed

lemma acquire_tracker: "acquire cfg w s = Step (w', s') \<Longrightarrow> wg s' = wg s"
  by (auto simp: acquire_def recv_def send_def Let_def split: list.splits option.splits if_splits)

lemma execute_tracker:
  assumes "execute env cfg srcp dstp (Some fi) w s = Step (w', s')" "admissible cfg fi"
  shows "wg s' = wg s - (if pc w' = Acquire then 1 else 0)"
  using task_done_once [OF assms(1)] assms(2)
  by (cases "IsDir fi"; cases "on_open fi") (auto simp: admissible_def)

lemma range_step_tracker:
  assumes "range_step env cfg srcp dstp fis err bs lst e w s = Step (w', s')"
  shows "wg s' = wg s + (if fis = [] then 0 else 1) - (if pc w' = Acquire then 1 else 0)"
proof (cases "fis = [] \<and> err = None")
  case True
  with assms have e: "enter_readdir srcp dstp bs lst e w s = (w', s')"
    by (simp add: range_step_def)
  from enter_readdir_kept [OF e] True show ?thesis by simp
next
  case False
  with assms show ?thesis
    by (auto simp: range_step_def Let_def wg_Add_def wg_Done_def report_def fd_close_def call_def
        recv_def send_def split: list.splits option.splits if_splits)
qed

lemma worker_step_tracker:
  assumes "worker_step env cfg w s = Step (w', s')" "worker_ok cfg w"
  shows "wg s' = wg s + (if finds_child w then 1 else 0) - (if ends_task w w' then 1 else 0)"
proof (cases "pc w")
  case Acquire
  with assms acquire_tracker [of cfg w s w' s'] show ?thesis
    by (simp add: worker_step_def ends_task_def finds_child_def)
next
  case (Execute srcp dstp info)
  with assms(2) obtain fi where i: "info = Some fi" "admissible cfg fi"
    by (cases info) (auto simp: worker_ok_def)
  with Execute assms(1) execute_tracker [of env cfg srcp dstp fi w s w' s'] show ?thesis
    by (simp add: worker_step_def ends_task_def finds_child_def)
next
  case (Range srcp dstp fis err bs lst e)
  with assms(1) range_step_tracker [of env cfg srcp dstp fis err bs lst e w s w' s'] show ?thesis
    by (cases fis) (simp_all add: worker_step_def ends_task_def finds_child_def)
qed

lemma driver_step_tracker:
  assumes "driver_step cfg g = Step g'"
  shows "wg (sh g') + int (length (submitted (driver g'))) = wg (sh g) + int (length (submitted (driver g)))"
  using assms
  by (auto simp: driver_step_def report_def wg_Add_def recv_def send_def Let_def
      split: list.splits option.splits action.splits if_splits)

subsection \<open>The calls made for one task\<close>








lemma copy_regular_fds:
  "fds (copy_regular cfg srcp dstp fi s) =
     (case on_open fi of
        Some err \<Rightarrow> fds s
      | None \<Rightarrow>
          (case on_create fi of
             Some err \<Rightarrow> fds s @ [srcp]
           | None \<Rightarrow> remove1 dstp (remove1 srcp (fds s @ [srcp, dstp]))))"
  by (simp add: copy_regular_def Let_def report_def call_def fd_open_def fd_close_def
      split: option.splits)

lemma fmtErr_not_empty: "fmtErr pth err line \<noteq> []"
  by (simp add: fmtErr_def Let_def)

lemma symlink_test_holds: "symlink_test m"
  by (simp add: symlink_test_def ModeSymlink_def or_eq_0_iff)

lemma symlink_mode:
  assumes "m AND ModeType = ModeSymlink"
  shows "\<not> mode_IsDir m \<and> \<not> IsRegular m"
proof -
  have "m AND ModeDir = (m AND ModeType) AND ModeDir"
    by (simp add: and.assoc ModeType_def ModeDir_def ModeSymlink_def ModeNamedPipe_def
        ModeSocket_def ModeDevice_def ModeCharDevice_def ModeIrregular_def)
  also have "\<dots> = 0"
    by (simp add: assms ModeDir_def ModeSymlink_def)
  finally have "m AND ModeDir = 0" .
  moreover have "ModeSymlink \<noteq> 0" by (simp add: ModeSymlink_def)
  ultimately show ?thesis using assms by (simp add: mode_IsDir_def IsRegular_def)
qed

subsection \<open>The driver's loop over the sources\<close>

lemma each_source_length: "length (each_source env cfg dstp srcs) = length srcs"
  by (induction srcs) auto

lemma each_source_submitted: "submitted (each_source env cfg dstp srcs) = spec_tasks env cfg dstp srcs"
  by (induction srcs)
     (auto simp: spec_tasks_def valid_source_def source_action_def split: sum.splits)

lemma each_source_reported:
  "length (reported (each_source env cfg dstp srcs)) = length (filter (\<lambda>srcp. \<not> valid_source env cfg srcp) srcs)"
  by (induction srcs)
     (auto simp: valid_source_def source_action_def split: sum.splits)

lemma CPCP_actions_multi:
  assumes "2 \<le> length srcs"
  shows "CPCP_actions env cfg (srcs @ [dstp]) = Inr (multi_source env cfg srcs dstp)"
proof -
  from assms obtain a b rest where s: "srcs = a # b # rest"
    by (cases srcs; cases "tl srcs") auto
  then show ?thesis by (simp add: CPCP_actions_def)
qed

subsection \<open>Where the preserve-links flag is read\<close>

lemma each_source_links:
  "each_source env (cfg\<lparr>preserveLinks := b\<rparr>) dstp srcs = each_source env cfg dstp srcs"
  by (induction srcs) (simp_all add: source_action_def stat_src_def cong: sum.case_cong if_cong)

lemma CPCP_actions_links:
  "CPCP_actions env (cfg\<lparr>preserveLinks := b\<rparr>) args = CPCP_actions env cfg args"
  by (simp add: CPCP_actions_def single_source_def multi_source_def source_action_def stat_src_def
      each_source_links Let_def cong: sum.case_cong list.case_cong if_cong)

lemma worker_step_links:
  "worker_step env (cfg\<lparr>preserveLinks := b\<rparr>) w s = worker_step env cfg w s"
  by (simp add: worker_step_def acquire_def execute_def range_step_def copy_directory_def
      copy_regular_def Let_def
      cong: pc.case_cong option.case_cong list.case_cong prod.case_cong if_cong)

lemma successors_links:
  "successors env (cfg\<lparr>preserveLinks := b\<rparr>) g = successors env cfg g"
proof -
  have "worker_succ env (cfg\<lparr>preserveLinks := b\<rparr>) g = worker_succ env cfg g"
    by (rule ext) (simp add: worker_succ_def worker_step_links)
  then show ?thesis
    by (simp add: successors_def driver_step_def Let_def
        cong: list.case_cong action.case_cong option.case_cong prod.case_cong)
qed

lemma reaches_links_imp:
  assumes "reaches env cfg g0 g" "\<And>g. successors env cfg' g = successors env cfg g"
  shows "reaches env cfg' g0 g"
  using assms(1)
proof (induction rule: reaches.induct)
  case start
  show ?case by (rule reaches.start)
next
  case (step g g')
  from step.hyps(2) assms(2) have "g' \<in> set (successors env cfg' g)" by simp
  with step.IH show ?case by (rule reaches.step)
qed

lemma reaches_links:
  "reaches env (cfg\<lparr>preserveLinks := b\<rparr>) g0 g = reaches env cfg g0 g"
proof
  assume "reaches env (cfg\<lparr>preserveLinks := b\<rparr>) g0 g"
  then show "reaches env cfg g0 g"
    by (rule reaches_links_imp) (simp add: successors_links)
next
  assume "reaches env cfg g0 g"
  then show "reaches env (cfg\<lparr>preserveLinks := b\<rparr>) g0 g"
    by (rule reaches_links_imp) (simp add: successors_links)
qed

subsection \<open>Evaluating the program\<close>

text \<open>The definitions to unfold when the program is evaluated at a concrete input.\<close>

lemmas engine_defs = successors_def driver_step_def worker_succ_def worker_step_def acquire_def
  execute_def range_step_def copy_directory_def copy_regular_def copy_symlink_def enter_readdir_def
  readdir_def recv_def send_def report_def say_def call_def wg_Add_def wg_Done_def fd_open_def
  fd_close_def IsDir_def mode_IsDir_def IsRegular_def symlink_test_def ModeType_def ModeDir_def
  ModeSymlink_def ModeNamedPipe_def ModeSocket_def ModeDevice_def ModeCharDevice_def
  ModeIrregular_def init_def empty_copyTask_def Let_def

lemmas sample_defs = sample_env_def sample_cfg_def three_files_def dir_entry_def file_entry_def
  link_entry_def no_link_def sample_stat_def

lemma run_reaches: "run env cfg ks g = Some g' \<Longrightarrow> reaches env cfg g0 g \<Longrightarrow> reaches env cfg g0 g'"
proof (induction ks arbitrary: g)
  case Nil
  then show ?case by simp
next
  case (Cons k ks)
  from Cons.prems(1) obtain g1 rest where d: "drop k (successors env cfg g) = g1 # rest"
    and r: "run env cfg ks g1 = Some g'"
    by (auto split: list.splits)
  from d have "g1 \<in> set (successors env cfg g)"
    by (metis in_set_dropD list.set_intros(1))
  with Cons.prems(2) have "reaches env cfg g0 g1" by (rule reaches.step)
  with r show ?case by (rule Cons.IH)
qed

lemma sample_run_stops: "(case sample_run of None \<Rightarrow> False | Some g \<Rightarrow> successors sample_env sample_cfg g = [])"
  by (simp add: sample_run_def engine_defs sample_defs)

lemma replicate_two: "replicate 2 x = [x, x]"
  by (simp add: numeral_2_eq_2)

lemma run_reaches_the:
  assumes "run env cfg ks g0 \<noteq> None"
  shows "reaches env cfg g0 (the (run env cfg ks g0))"
proof -
  from assms obtain g where "run env cfg ks g0 = Some g" by auto
  with run_reaches [OF this reaches.start] show ?thesis by simp
qed

lemma publish_state_holds:
  "publish_state \<noteq> None
   \<and> map localTasks (workers (the publish_state)) = [[task_c], []]
   \<and> map pc (workers (the publish_state)) = [Acquire, Execute ''src/a'' ''dst/a'' (srcfi task_a)]
   \<and> freeCopyTasks (sh (the publish_state)) = [task_a]
   \<and> copyTasks (sh (the publish_state)) = [task_b]
   \<and> ops (sh (the publish_state)) = [OpMkdir ''dst'' 0, OpOpen ''src'', OpReaddir ''src'', OpReaddir ''src'', OpClose ''src'']
   \<and> wg (sh (the publish_state)) = 3"
  by (simp add: publish_state_def two_cfg_def task_a_def task_b_def task_c_def engine_defs sample_defs
      replicate_two)

lemma fallback_state_holds:
  "fallback_state \<noteq> None
   \<and> workers (the fallback_state) = [\<lparr>localTasks = [task_b, task_c], pc = Acquire\<rparr>]
   \<and> freeCopyTasks (sh (the fallback_state)) = []
   \<and> copyTasks (sh (the fallback_state)) = [task_a]"
  by (simp add: fallback_state_def task_a_def task_b_def task_c_def engine_defs sample_defs)


lemma flat_run_stops:
  "flat_run \<noteq> None \<and> successors sample_env flat_cfg (the flat_run) = []
   \<and> errs (sh (the flat_run)) = [''omitting directory '' @ Quote sample_env ''d'']
   \<and> ops (sh (the flat_run)) = [OpOpen ''f'', OpCreate ''d/f'', OpCopy ''d/f'' ''f'', OpClose ''f'',
        OpClose ''d/f'', OpChmod ''d/f'' 0]"
  by (simp add: flat_run_def flat_cfg_def engine_defs sample_defs)

lemma flat_mid_holds:
  "flat_mid \<noteq> None
   \<and> workers (the flat_mid) = [\<lparr>localTasks = [], pc = Execute ''f'' ''d/f'' (Some (file_entry ''f'' 0x1A4))\<rparr>]
   \<and> wg (sh (the flat_mid)) = 1
   \<and> driver (the flat_mid) = []"
  by (simp add: flat_mid_def flat_cfg_def engine_defs sample_defs)

lemma flat_mid_step:
  "\<exists>s'. worker_step sample_env flat_cfg
           \<lparr>localTasks = [], pc = Execute ''f'' ''d/f'' (Some (file_entry ''f'' 0x1A4))\<rparr>
           (sh (the flat_mid)) = Step (idle_worker, s')"
  by (simp add: flat_mid_def flat_cfg_def idle_worker_def engine_defs sample_defs)



lemma taken_actions:
  "CPCP_actions taken_env lstat_cfg [''l'', ''f''] = Inr [Submit ''l'' ''f'' taken_link]"
  by (simp add: CPCP_actions_def single_source_def source_action_def stat_src_def taken_env_def
      taken_link_def lstat_cfg_def engine_defs sample_defs)

lemma taken_run_holds:
  "on_readlink taken_link = Inr ''g''
   \<and> taken_run \<noteq> None
   \<and> finished (the taken_run)
   \<and> ops (sh (the taken_run)) = [OpReadlink ''l'', OpSymlink ''g'' ''f'']
   \<and> errs (sh (the taken_run)) = [fmtErr ''f'' (OsError Exist ''file exists'') 399]
   \<and> links_made taken_link (ops (sh (the taken_run))) = []"
  by (simp add: taken_run_def taken_env_def taken_link_def lstat_cfg_def links_made_def
      finished_def engine_defs sample_defs)



subsection \<open>The overflow discipline\<close>

text \<open>
  Claim C1. At the top of its loop, in any state the engine reaches, a worker with a
  non-empty overflow buffer takes the last buffered task and tries to take a Task Object
  from the free pool without blocking. If it gets one, the task is published: the
  object, filled with the task's fields, is appended to the Work Queue, and the worker
  goes round its loop again. (The send of line 298 is a plain one; since the pooled
  objects are as many as the queue has room for, it always goes through at once.) If it
  gets none, the worker keeps the task for itself and the shared state is left as it is:
  nothing is published. With an empty buffer the worker receives from the Work Queue: it
  blocks when the queue is empty, and otherwise takes the first task. The worker blocks
  in a receive only when its buffer is empty.
\<close>

theorem overflow_discipline:
  assumes "reaches env cfg (init cfg acts) g"
  shows "(localTasks w \<noteq> [] \<longrightarrow>
           (case freeCopyTasks (sh g) of
              fct # free \<Rightarrow>
                acquire cfg w (sh g) =
                  Step (w\<lparr>localTasks := butlast (localTasks w)\<rparr>,
                        (sh g)\<lparr>freeCopyTasks := free,
                          copyTasks := copyTasks (sh g) @
                            [fct\<lparr>src := src (last (localTasks w)), dst := dst (last (localTasks w)),
                                 srcfi := srcfi (last (localTasks w))\<rparr>]\<rparr>)
            | [] \<Rightarrow>
                acquire cfg w (sh g) =
                  Step (w\<lparr>localTasks := butlast (localTasks w),
                          pc := Execute (src (last (localTasks w))) (dst (last (localTasks w)))
                                  (srcfi (last (localTasks w)))\<rparr>, sh g)))
       \<and> (localTasks w = [] \<longrightarrow>
           (case copyTasks (sh g) of
              [] \<Rightarrow> acquire cfg w (sh g) = BlockedOnReceive
            | ct # q \<Rightarrow>
                acquire cfg w (sh g) =
                  Step (w\<lparr>pc := Execute (src ct) (dst ct) (srcfi ct)\<rparr>,
                        (sh g)\<lparr>copyTasks := q, freeCopyTasks := freeCopyTasks (sh g) @ [ct]\<rparr>)))
       \<and> (acquire cfg w (sh g) = BlockedOnReceive \<longrightarrow> localTasks w = [])"
  using pool_conserved [OF assms]
  by (auto simp: acquire_def recv_def send_def Let_def split: list.splits option.splits)

theorem overflow_discipline_witness:
  "reaches sample_env two_cfg (init two_cfg [Submit ''src'' ''dst'' three_files]) (the publish_state)
   \<and> localTasks (workers (the publish_state) ! 0) = [task_c]
   \<and> freeCopyTasks (sh (the publish_state)) = [task_a]
   \<and> acquire two_cfg (workers (the publish_state) ! 0) (sh (the publish_state))
       = Step (idle_worker, (sh (the publish_state))\<lparr>freeCopyTasks := [], copyTasks := [task_b, task_c]\<rparr>)
   \<and> reaches sample_env sample_cfg (init sample_cfg [Submit ''src'' ''dst'' three_files]) (the fallback_state)
   \<and> localTasks (workers (the fallback_state) ! 0) = [task_b, task_c]
   \<and> freeCopyTasks (sh (the fallback_state)) = []
   \<and> acquire sample_cfg (workers (the fallback_state) ! 0) (sh (the fallback_state))
       = Step (\<lparr>localTasks = [task_b], pc = Execute ''src/c'' ''dst/c'' (srcfi task_c)\<rparr>, sh (the fallback_state))
   \<and> acquire sample_cfg idle_worker (sh (init sample_cfg [])) = BlockedOnReceive"
proof -
  let ?p = "the publish_state" and ?f = "the fallback_state"
  from publish_state_holds have pn: "publish_state \<noteq> None" by blast
  from run_reaches_the [OF pn [unfolded publish_state_def]]
  have rp: "reaches sample_env two_cfg (init two_cfg [Submit ''src'' ''dst'' three_files]) ?p"
    by (simp only: publish_state_def)
  from fallback_state_holds have fn: "fallback_state \<noteq> None" by blast
  from run_reaches_the [OF fn [unfolded fallback_state_def]]
  have rf: "reaches sample_env sample_cfg (init sample_cfg [Submit ''src'' ''dst'' three_files]) ?f"
    by (simp only: fallback_state_def)
  from publish_state_holds have wp: "workers ?p ! 0 = \<lparr>localTasks = [task_c], pc = Acquire\<rparr>"
    by (cases "workers ?p"; cases "tl (workers ?p)") auto
  from publish_state_holds have sp: "freeCopyTasks (sh ?p) = [task_a]" "copyTasks (sh ?p) = [task_b]"
    by simp_all
  from fallback_state_holds have wf: "workers ?f ! 0 = \<lparr>localTasks = [task_b, task_c], pc = Acquire\<rparr>"
    and sf: "freeCopyTasks (sh ?f) = []"
    by simp_all
  from overflow_discipline [OF rp, of "workers ?p ! 0"] wp sp
  have a: "acquire two_cfg (workers ?p ! 0) (sh ?p)
       = Step (idle_worker, (sh ?p)\<lparr>freeCopyTasks := [], copyTasks := [task_b, task_c]\<rparr>)"
    by (simp add: idle_worker_def task_a_def task_c_def)
  from overflow_discipline [OF rf, of "workers ?f ! 0"] wf sf
  have b: "acquire sample_cfg (workers ?f ! 0) (sh ?f)
       = Step (\<lparr>localTasks = [task_b], pc = Execute ''src/c'' ''dst/c'' (srcfi task_c)\<rparr>, sh ?f)"
    by (simp add: task_c_def)
  have r0: "reaches sample_env sample_cfg (init sample_cfg []) (init sample_cfg [])"
    by (rule reaches.start)
  from overflow_discipline [OF r0, of idle_worker]
  have c: "acquire sample_cfg idle_worker (sh (init sample_cfg [])) = BlockedOnReceive"
    by (simp add: idle_worker_def init_def)
  from rp rf wp wf sp sf a b c show ?thesis by simp
qed

subsection \<open>No deadlock\<close>

text \<open>
  Claim C2. With recursion enabled and at least one worker, the run terminates whatever
  the directories hold, in particular for a directory with more children than the Work
  Queue has room for. No run goes on for ever (every step lowers the work left, from any
  state). In every state a run reaches from the first one, whatever the driver has to
  submit and however the goroutines interleave: if no goroutine can move, then the
  driver has submitted everything and the tracker is zero, so \<^verbatim>\<open>wg.Wait()\<close> returns; and
  every worker can move, except one that stands at the top of its loop with an empty
  overflow buffer while the Work Queue is empty (it waits in the receive of line 306).
  So a worker that walks a directory is never held up by a full queue or an empty pool:
  a child it cannot publish goes to its overflow buffer, and the buffer is emptied by
  later rounds of the loop.
\<close>

theorem no_deadlock_termination:
  assumes "recursive cfg" "0 < parallelTasks cfg"
  shows "wf {(g', g). g' \<in> set (successors env cfg g)}
     \<and> (\<forall>g. reaches env cfg (init cfg acts) g \<longrightarrow>
          (successors env cfg g = [] \<longrightarrow> finished g)
        \<and> (\<forall>i < length (workers g).
             (\<exists>x. worker_step env cfg (workers g ! i) (sh g) = Step x)
           \<or> (worker_step env cfg (workers g ! i) (sh g) = BlockedOnReceive
              \<and> pc (workers g ! i) = Acquire \<and> localTasks (workers g ! i) = []
              \<and> copyTasks (sh g) = [])))"
proof (intro conjI allI impI)
  show "wf {(g', g). g' \<in> set (successors env cfg g)}" by (rule wf_successors)
next
  fix g assume "reaches env cfg (init cfg acts) g" "successors env cfg g = []"
  with assms show "finished g"
    by (auto intro: stuck_finished reaches_invariant recursive_actions_ok)
next
  fix g i assume r: "reaches env cfg (init cfg acts) g" and i: "i < length (workers g)"
  from reaches_invariant [OF r recursive_actions_ok [OF assms(1)]] have inv: "invariant cfg g" .
  then have "list_all (worker_ok cfg) (workers g)"
    and b: "length (freeCopyTasks (sh g)) + length (copyTasks (sh g)) \<le> parallelTasks cfg"
    by (simp_all add: invariant_def)
  with i have "worker_ok cfg (workers g ! i)" by (simp add: list_all_nth)
  from worker_step_progress [OF b this, of env]
  show "(\<exists>x. worker_step env cfg (workers g ! i) (sh g) = Step x)
           \<or> (worker_step env cfg (workers g ! i) (sh g) = BlockedOnReceive
              \<and> pc (workers g ! i) = Acquire \<and> localTasks (workers g ! i) = []
              \<and> copyTasks (sh g) = [])" .
qed

theorem no_deadlock_termination_witness:
  "recursive sample_cfg \<and> 0 < parallelTasks sample_cfg
   \<and> parallelTasks sample_cfg < length (concat (on_readdir three_files))
   \<and> wf {(g', g). g' \<in> set (successors sample_env sample_cfg g)}
   \<and> sample_run \<noteq> None
   \<and> reaches sample_env sample_cfg (init sample_cfg [Submit ''src'' ''dst'' three_files]) (the sample_run)
   \<and> finished (the sample_run)"
proof -
  let ?g0 = "init sample_cfg [Submit ''src'' ''dst'' three_files]"
  have c: "recursive sample_cfg" "0 < parallelTasks sample_cfg"
    by (simp_all add: sample_cfg_def)
  have k: "parallelTasks sample_cfg < length (concat (on_readdir three_files))"
    by (simp add: sample_cfg_def three_files_def dir_entry_def)
  from sample_run_stops obtain g where g: "sample_run = Some g"
    and s: "successors sample_env sample_cfg g = []"
    by (auto split: option.splits)
  from g have "run sample_env sample_cfg [0,0,0,0,0,0,0,0,0,0,0,0,0,0] ?g0 = Some g"
    by (simp only: sample_run_def)
  from run_reaches [OF this reaches.start] have r: "reaches sample_env sample_cfg ?g0 g" .
  from no_deadlock_termination [OF c, of sample_env "[Submit ''src'' ''dst'' three_files]"]
  have w: "wf {(g', g). g' \<in> set (successors sample_env sample_cfg g)}"
    and f: "\<And>g. reaches sample_env sample_cfg ?g0 g \<Longrightarrow> successors sample_env sample_cfg g = [] \<Longrightarrow> finished g"
    by blast+
  from f [OF r s] have "finished g" .
  with c k w r show ?thesis unfolding g by simp
qed

subsection \<open>The completion tracker\<close>

text \<open>
  Claim C3. Over a full run the Completion Tracker is raised once for each task and
  lowered once for each task carried out, with recursion on or off. For every list of
  arguments that \<^verbatim>\<open>CPCP\<close> accepts and every state \<open>g\<close> that the engine reaches from them,
  under any interleaving of the goroutines:
  \<^item> the tracker equals the number of tasks that are outstanding (those in the Work
    Queue, those in the overflow buffers and those being carried out), so it is never
    negative;
  \<^item> a worker that is about to carry out a task holds an entry, and this entry is not a
    directory unless recursion is on. The branch of lines 316 to 318, which ends a task
    without \<^verbatim>\<open>wg.Done()\<close>, is therefore never entered: the driver reports a directory
    given with recursion off itself (lines 91 to 92 and 119 to 122), and a worker finds
    children only in a directory that it lists, which it does with recursion on;
  \<^item> a step of a worker changes the tracker by exactly this: plus one if the step visits
    one more entry of a listing (line 347), minus one if the step ends the task the
    worker is carrying out, whatever the branch (regular file, symbolic link, directory
    that cannot be opened, end of a listing, with or without reported errors). A task
    ends once, so it is counted down once;
  \<^item> a step of the driver raises the tracker by one exactly when it submits a task;
  \<^item> when no goroutine can move the driver has submitted everything and the tracker is
    zero, so that \<^verbatim>\<open>wg.Wait()\<close> returns; and every run comes to such a state, because
    the steps cannot go on forever.
  The tracker starts at zero and ends at zero, so it has been raised as often as
  lowered.
\<close>

theorem completion_tracker_balance:
  assumes "CPCP_actions env cfg args = Inr acts" "0 < parallelTasks cfg"
    "reaches env cfg (init cfg acts) g"
  shows "wg (sh g) = int (length (copyTasks (sh g)) + sum_list (map pending (workers g)))
       \<and> 0 \<le> wg (sh g)
       \<and> (\<forall>i < length (workers g). \<forall>a b info.
            pc (workers g ! i) = Execute a b info \<longrightarrow>
              (\<exists>fi. info = Some fi \<and> (recursive cfg \<or> \<not> IsDir fi)))
       \<and> (\<forall>i < length (workers g). \<forall>w' s'.
            worker_step env cfg (workers g ! i) (sh g) = Step (w', s') \<longrightarrow>
              wg s' = wg (sh g) + (if finds_child (workers g ! i) then 1 else 0)
                        - (if ends_task (workers g ! i) w' then 1 else 0))
       \<and> (\<forall>g'. driver_step cfg g = Step g' \<longrightarrow>
            wg (sh g') + int (length (submitted (driver g')))
              = wg (sh g) + int (length (submitted (driver g))))
       \<and> (successors env cfg g = [] \<longrightarrow> finished g)
       \<and> wf {(g', g). g' \<in> set (successors env cfg g)}"
proof -
  from reaches_invariant [OF assms(3) CPCP_actions_ok [OF assms(1)]] have inv: "invariant cfg g" .
  then have c: "wg (sh g) = int (length (copyTasks (sh g)) + sum_list (map pending (workers g)))"
    and ok: "list_all (worker_ok cfg) (workers g)"
    by (simp_all add: invariant_def)
  from c have n: "0 \<le> wg (sh g)" by simp
  have x: "\<forall>i < length (workers g). \<forall>a b info.
            pc (workers g ! i) = Execute a b info \<longrightarrow>
              (\<exists>fi. info = Some fi \<and> (recursive cfg \<or> \<not> IsDir fi))"
  proof (intro allI impI)
    fix i a b info
    assume "i < length (workers g)" and e: "pc (workers g ! i) = Execute a b info"
    with ok have "worker_ok cfg (workers g ! i)" by (simp add: list_all_nth)
    with e show "\<exists>fi. info = Some fi \<and> (recursive cfg \<or> \<not> IsDir fi)"
      by (cases info) (auto simp: worker_ok_def admissible_def)
  qed
  have w: "\<forall>i < length (workers g). \<forall>w' s'.
            worker_step env cfg (workers g ! i) (sh g) = Step (w', s') \<longrightarrow>
              wg s' = wg (sh g) + (if finds_child (workers g ! i) then 1 else 0)
                        - (if ends_task (workers g ! i) w' then 1 else 0)"
  proof (intro allI impI)
    fix i w' s'
    assume "i < length (workers g)" and st: "worker_step env cfg (workers g ! i) (sh g) = Step (w', s')"
    with ok have "worker_ok cfg (workers g ! i)" by (simp add: list_all_nth)
    from worker_step_tracker [OF st this]
    show "wg s' = wg (sh g) + (if finds_child (workers g ! i) then 1 else 0)
                        - (if ends_task (workers g ! i) w' then 1 else 0)" .
  qed
  have d: "\<forall>g'. driver_step cfg g = Step g' \<longrightarrow>
            wg (sh g') + int (length (submitted (driver g')))
              = wg (sh g) + int (length (submitted (driver g)))"
    by (simp add: driver_step_tracker)
  have f: "successors env cfg g = [] \<longrightarrow> finished g"
    using stuck_finished [OF inv assms(2)] by blast
  from c n x w d f wf_successors [of env cfg] show ?thesis by blast
qed

theorem completion_tracker_balance_witness:
  "CPCP_actions sample_env flat_cfg flat_args
     = Inr [Submit ''f'' ''d/f'' (file_entry ''f'' 0x1A4),
            Report (''omitting directory '' @ Quote sample_env ''d'')]
   \<and> 0 < parallelTasks flat_cfg
   \<and> flat_mid \<noteq> None
   \<and> reaches sample_env flat_cfg
        (init flat_cfg [Submit ''f'' ''d/f'' (file_entry ''f'' 0x1A4),
                        Report (''omitting directory '' @ Quote sample_env ''d'')]) (the flat_mid)
   \<and> pc (workers (the flat_mid) ! 0) = Execute ''f'' ''d/f'' (Some (file_entry ''f'' 0x1A4))
   \<and> \<not> IsDir (file_entry ''f'' 0x1A4)
   \<and> wg (sh (the flat_mid)) = 1
   \<and> (\<exists>s'. worker_step sample_env flat_cfg (workers (the flat_mid) ! 0) (sh (the flat_mid))
              = Step (idle_worker, s')
          \<and> ends_task (workers (the flat_mid) ! 0) idle_worker
          \<and> \<not> finds_child (workers (the flat_mid) ! 0)
          \<and> wg s' = 0)
   \<and> flat_run \<noteq> None
   \<and> reaches sample_env flat_cfg
        (init flat_cfg [Submit ''f'' ''d/f'' (file_entry ''f'' 0x1A4),
                        Report (''omitting directory '' @ Quote sample_env ''d'')]) (the flat_run)
   \<and> successors sample_env flat_cfg (the flat_run) = []
   \<and> finished (the flat_run)
   \<and> wg (sh (the flat_run)) = 0"
proof -
  let ?acts = "[Submit ''f'' ''d/f'' (file_entry ''f'' 0x1A4),
                Report (''omitting directory '' @ Quote sample_env ''d'')]"
  let ?m = "the flat_mid"
  have a: "CPCP_actions sample_env flat_cfg flat_args = Inr ?acts"
    by (simp add: flat_args_def flat_cfg_def CPCP_actions_def multi_source_def source_action_def
        stat_src_def engine_defs sample_defs)
  have p: "0 < parallelTasks flat_cfg" by (simp add: flat_cfg_def sample_cfg_def)
  from flat_run_stops have fn: "flat_run \<noteq> None"
    and s: "successors sample_env flat_cfg (the flat_run) = []" by blast+
  from run_reaches_the [OF fn [unfolded flat_run_def]]
  have r: "reaches sample_env flat_cfg (init flat_cfg ?acts) (the flat_run)"
    by (simp only: flat_run_def)
  from completion_tracker_balance [OF a p r] s
  have f: "finished (the flat_run)" by blast
  then have z: "wg (sh (the flat_run)) = 0" by (simp add: finished_def)
  from flat_mid_holds have mn: "flat_mid \<noteq> None"
    and mw: "workers ?m ! 0 = \<lparr>localTasks = [], pc = Execute ''f'' ''d/f'' (Some (file_entry ''f'' 0x1A4))\<rparr>"
    and ml: "0 < length (workers ?m)"
    and m1: "wg (sh ?m) = 1"
    by simp_all
  from run_reaches_the [OF mn [unfolded flat_mid_def]]
  have rm: "reaches sample_env flat_cfg (init flat_cfg ?acts) ?m"
    by (simp only: flat_mid_def)
  from mw have mp: "pc (workers ?m ! 0) = Execute ''f'' ''d/f'' (Some (file_entry ''f'' 0x1A4))"
    and e: "ends_task (workers ?m ! 0) idle_worker" and nf: "\<not> finds_child (workers ?m ! 0)"
    by (simp_all add: ends_task_def finds_child_def idle_worker_def)
  have nd: "\<not> IsDir (file_entry ''f'' 0x1A4)" by (simp add: engine_defs sample_defs)
  from flat_mid_step mw obtain s' where
    st: "worker_step sample_env flat_cfg (workers ?m ! 0) (sh ?m) = Step (idle_worker, s')"
    by auto
  from completion_tracker_balance [OF a p rm] ml st
  have "wg s' = wg (sh ?m) + (if finds_child (workers ?m ! 0) then 1 else 0)
                  - (if ends_task (workers ?m ! 0) idle_worker then 1 else 0)"
    by blast
  with e nf m1 have "wg s' = 0" by simp
  with st e nf have ex: "\<exists>s'. worker_step sample_env flat_cfg (workers ?m ! 0) (sh ?m) = Step (idle_worker, s')
          \<and> ends_task (workers ?m ! 0) idle_worker
          \<and> \<not> finds_child (workers ?m ! 0)
          \<and> wg s' = 0"
    by blast
  from a p mn rm mp nd m1 ex fn r s f z show ?thesis by blast
qed

subsection \<open>The permission rule\<close>




subsection \<open>The symbolic link test\<close>

text \<open>
  Claim C5. The test of line 394 for "this entry is a symbolic link",
  \<^verbatim>\<open>srcfi.Mode()|os.ModeSymlink != 0\<close>, holds of every file mode: the inclusive OR with the
  symbolic link bit always has that bit set, so it is never zero.
\<close>

theorem symlink_test_always: "symlink_test m"
  by (simp add: symlink_test_def ModeSymlink_def or_eq_0_iff)

subsection \<open>Symbolic links\<close>

text \<open>
  Claim C6, as stated, fails when \<^verbatim>\<open>os.Symlink\<close> fails. In the run of \<^verbatim>\<open>cpcp -P l f\<close>
  where \<^verbatim>\<open>l\<close> is a symbolic link to \<^verbatim>\<open>g\<close> and \<^verbatim>\<open>f\<close> exists, the link is read with
  success and \<^verbatim>\<open>os.Symlink\<close> is called with the target \<^verbatim>\<open>g\<close>; the call fails because the
  destination exists, the error is reported (line 399), the run ends, and no symbolic
  link has been created.
\<close>

theorem link_not_made_when_symlink_fails:
  "CPCP_actions taken_env lstat_cfg [''l'', ''f''] = Inr [Submit ''l'' ''f'' taken_link]
   \<and> on_readlink taken_link = Inr ''g''
   \<and> taken_run \<noteq> None
   \<and> finished (the taken_run)
   \<and> ops (sh (the taken_run)) = [OpReadlink ''l'', OpSymlink ''g'' ''f'']
   \<and> errs (sh (the taken_run)) = [fmtErr ''f'' (OsError Exist ''file exists'') 399]
   \<and> links_made taken_link (ops (sh (the taken_run))) = []"
  using taken_actions taken_run_holds by blast

text \<open>
  Claim C6, amended. With no-dereference set the driver reads the source with
  \<^verbatim>\<open>os.Lstat\<close>, and for a symbolic link (of the type bits of its mode exactly the symbolic
  link bit is set) it submits a task that carries this entry. When the worker carries
  the task out and \<^verbatim>\<open>os.Readlink\<close> succeeds, the worker makes two calls: \<^verbatim>\<open>os.Readlink\<close> on
  the source, then \<^verbatim>\<open>os.Symlink\<close> to create the destination with exactly the string that
  \<^verbatim>\<open>os.Readlink\<close> returned as its target. When \<^verbatim>\<open>os.Symlink\<close> succeeds the destination is
  a symbolic link with that target and no error is reported; when it fails no link is
  created and the error is reported (line 399). Either way the task is then done (the
  tracker goes down by one).
\<close>

theorem symlink_round_trip:
  assumes "noDereference cfg" "Lstat env srcp = Inr fi" "Mode fi AND ModeType = ModeSymlink"
    "on_readlink fi = Inr target"
  shows "source_action env cfg srcp dstp line = Submit srcp dstp fi
       \<and> (\<exists>s'. execute env cfg srcp dstp (Some fi) w s = Step (w\<lparr>pc := Acquire\<rparr>, s')
            \<and> ops s' = ops s @ [OpReadlink srcp, OpSymlink target dstp]
            \<and> wg s' = wg s - 1
            \<and> (case on_symlink fi of
                 None \<Rightarrow> links_made fi [OpReadlink srcp, OpSymlink target dstp] = [(dstp, target)]
                          \<and> errs s' = errs s
               | Some err \<Rightarrow> links_made fi [OpReadlink srcp, OpSymlink target dstp] = []
                          \<and> errs s' = errs s @ [fmtErr dstp err 399]))"
proof -
  from symlink_mode [OF assms(3)] have m: "\<not> IsDir fi" "\<not> IsRegular (Mode fi)"
    by (simp_all add: IsDir_def)
  from assms(1,2) m have "source_action env cfg srcp dstp line = Submit srcp dstp fi"
    by (simp add: source_action_def stat_src_def)
  moreover from m assms(4) symlink_test_holds [of "Mode fi"]
  have "\<exists>s'. execute env cfg srcp dstp (Some fi) w s = Step (w\<lparr>pc := Acquire\<rparr>, s')
            \<and> ops s' = ops s @ [OpReadlink srcp, OpSymlink target dstp]
            \<and> wg s' = wg s - 1
            \<and> (case on_symlink fi of
                 None \<Rightarrow> links_made fi [OpReadlink srcp, OpSymlink target dstp] = [(dstp, target)]
                          \<and> errs s' = errs s
               | Some err \<Rightarrow> links_made fi [OpReadlink srcp, OpSymlink target dstp] = []
                          \<and> errs s' = errs s @ [fmtErr dstp err 399])"
    by (auto simp: execute_def copy_symlink_def Let_def say_def call_def report_def wg_Done_def
        links_made_def split: option.splits)
  ultimately show ?thesis by simp
qed

theorem symlink_round_trip_witness:
  "noDereference lstat_cfg \<and> Lstat sample_env ''l'' = Inr (link_entry ''l'' ''f'')
   \<and> Mode (link_entry ''l'' ''f'') AND ModeType = ModeSymlink
   \<and> on_readlink (link_entry ''l'' ''f'') = Inr ''f''
   \<and> on_symlink (link_entry ''l'' ''f'') = None
   \<and> CPCP_actions sample_env lstat_cfg [''l'', ''t''] = Inr [Submit ''l'' ''t'' (link_entry ''l'' ''f'')]
   \<and> execute sample_env lstat_cfg ''l'' ''t'' (Some (link_entry ''l'' ''f'')) idle_worker one_counted
       = Step (idle_worker, one_counted\<lparr>wg := 0, ops := [OpReadlink ''l'', OpSymlink ''f'' ''t'']\<rparr>)
   \<and> links_made (link_entry ''l'' ''f'') [OpReadlink ''l'', OpSymlink ''f'' ''t''] = [(''t'', ''f'')]"
proof -
  let ?fi = "link_entry ''l'' ''f''"
  have h: "noDereference lstat_cfg" "Lstat sample_env ''l'' = Inr ?fi"
    "Mode ?fi AND ModeType = ModeSymlink" "on_readlink ?fi = Inr ''f''"
    by (simp_all add: lstat_cfg_def engine_defs sample_defs)
  have n: "Stat sample_env ''t'' = Inl (OsError NotExist ''no such file or directory'')"
    "on_symlink ?fi = None"
    by (simp_all add: sample_defs)
  from symlink_round_trip [OF h, of "''t''" 90 idle_worker one_counted]
  obtain s' where a: "source_action sample_env lstat_cfg ''l'' ''t'' 90 = Submit ''l'' ''t'' ?fi"
    and e: "execute sample_env lstat_cfg ''l'' ''t'' (Some ?fi) idle_worker one_counted
              = Step (idle_worker\<lparr>pc := Acquire\<rparr>, s')"
    and o: "ops s' = ops one_counted @ [OpReadlink ''l'', OpSymlink ''f'' ''t'']"
      "wg s' = wg one_counted - 1" "errs s' = errs one_counted"
    and l: "links_made ?fi [OpReadlink ''l'', OpSymlink ''f'' ''t''] = [(''t'', ''f'')]"
    using n by auto
  from a n have c: "CPCP_actions sample_env lstat_cfg [''l'', ''t''] = Inr [Submit ''l'' ''t'' ?fi]"
    by (simp add: CPCP_actions_def single_source_def)
  have "execute sample_env lstat_cfg ''l'' ''t'' (Some ?fi) idle_worker one_counted
       = Step (idle_worker, one_counted\<lparr>wg := 0, ops := [OpReadlink ''l'', OpSymlink ''f'' ''t'']\<rparr>)"
    by (simp add: lstat_cfg_def one_counted_def idle_worker_def engine_defs sample_defs)
  with h n c l show ?thesis by simp
qed

subsection \<open>Several sources\<close>

text \<open>
  Claim C7, as stated, fails when \<^verbatim>\<open>os.Stat\<close> on the destination fails with an error
  other than "does not exist" (lines 103 and 104). The claim has two cases, a
  destination that does not exist or is not a directory and "otherwise"; here the
  destination is not known to be missing, so by the claim the driver would stat the two
  sources and submit a task for each. The driver reports one line, the formatted error of
  \<^verbatim>\<open>os.Stat\<close>, which is not the policy line, and submits nothing.
\<close>

theorem unreadable_target_counterexample:
  "\<not> missing_or_not_directory sample_env ''locked''
   \<and> spec_tasks sample_env sample_cfg ''locked'' [''f'', ''g'']
       = [(''f'', ''locked/f'', file_entry ''f'' 0x1A4), (''g'', ''locked/g'', file_entry ''g'' 0x1A4)]
   \<and> CPCP_actions sample_env sample_cfg [''f'', ''g'', ''locked'']
       = Inr [Report (fmtErr ''locked'' (OsError OtherKind ''permission denied'') 104)]
   \<and> fmtErr ''locked'' (OsError OtherKind ''permission denied'') 104 \<noteq> policy_line sample_env ''locked''"
  by (simp add: missing_or_not_directory_def spec_tasks_def valid_source_def stat_src_def
      CPCP_actions_def multi_source_def sample_env_def sample_cfg_def sample_stat_def
      IsDir_def mode_IsDir_def ModeDir_def file_entry_def fmtErr_def policy_line_def)

text \<open>
  Claim C7, amended. For every invocation with two or more sources the driver goes by
  what \<^verbatim>\<open>os.Stat\<close> says of the destination. If it fails, the driver submits no task
  and reports exactly one line: the policy line "target ... is not a directory" when
  the error is "does not exist", the formatted error otherwise. If it succeeds and the
  destination is not a directory, the driver submits no task and reports exactly the
  policy line. If the destination is a directory, the driver deals with every source
  (a source that fails does not stop the loop), submits exactly one task for each valid
  source, in order, with the destination \<^verbatim>\<open>destination/basename(source)\<close>, and reports
  one line for each source that is not valid.
\<close>

theorem multi_source_policy:
  assumes "2 \<le> length srcs"
  shows "\<exists>acts. CPCP_actions env cfg (srcs @ [dstp]) = Inr acts \<and>
      (case Stat env dstp of
         Inl err \<Rightarrow>
           submitted acts = []
           \<and> reported acts = [if IsNotExist err then policy_line env dstp else fmtErr dstp err 104]
       | Inr dstfi \<Rightarrow>
           if IsDir dstfi then
             submitted acts = spec_tasks env cfg dstp srcs \<and> length acts = length srcs
             \<and> length (reported acts) = length (filter (\<lambda>srcp. \<not> valid_source env cfg srcp) srcs)
           else submitted acts = [] \<and> reported acts = [policy_line env dstp])"
  unfolding CPCP_actions_multi [OF assms]
  by (auto simp: multi_source_def policy_line_def each_source_length each_source_submitted
      each_source_reported split: sum.splits)

theorem multi_source_policy_witness:
  "2 \<le> length [''f'', ''nope'', ''l'']
   \<and> CPCP_actions sample_env sample_cfg ([''f'', ''nope'', ''l''] @ [''d''])
       = Inr [Submit ''f'' ''d/f'' (file_entry ''f'' 0x1A4),
              Report (fmtErr ''nope'' (OsError NotExist ''no such file or directory'') 116),
              Submit ''l'' ''d/l'' (file_entry ''l'' 0x1A4)]
   \<and> spec_tasks sample_env sample_cfg ''d'' [''f'', ''nope'', ''l'']
       = [(''f'', ''d/f'', file_entry ''f'' 0x1A4), (''l'', ''d/l'', file_entry ''l'' 0x1A4)]
   \<and> CPCP_actions sample_env sample_cfg ([''f'', ''nope'', ''l''] @ [''g''])
       = Inr [Report (policy_line sample_env ''g'')]
   \<and> CPCP_actions sample_env sample_cfg ([''f'', ''nope'', ''l''] @ [''nowhere''])
       = Inr [Report (policy_line sample_env ''nowhere'')]"
proof -
  let ?srcs = "[''f'', ''nope'', ''l'']"
  have l: "2 \<le> length ?srcs" by simp
  have d: "Stat sample_env ''d'' = Inr (dir_entry ''d'' 0x1ED [])" "IsDir (dir_entry ''d'' 0x1ED [])"
    "Stat sample_env ''g'' = Inr (file_entry ''g'' 0x1A4)" "\<not> IsDir (file_entry ''g'' 0x1A4)"
    "Stat sample_env ''nowhere'' = Inl (OsError NotExist ''no such file or directory'')"
    by (simp_all add: engine_defs sample_defs)
  have t: "spec_tasks sample_env sample_cfg ''d'' ?srcs
       = [(''f'', ''d/f'', file_entry ''f'' 0x1A4), (''l'', ''d/l'', file_entry ''l'' 0x1A4)]"
    by (simp add: spec_tasks_def valid_source_def stat_src_def engine_defs sample_defs)
  have a: "CPCP_actions sample_env sample_cfg (?srcs @ [''d''])
       = Inr [Submit ''f'' ''d/f'' (file_entry ''f'' 0x1A4),
              Report (fmtErr ''nope'' (OsError NotExist ''no such file or directory'') 116),
              Submit ''l'' ''d/l'' (file_entry ''l'' 0x1A4)]"
    by (simp add: CPCP_actions_def multi_source_def source_action_def stat_src_def engine_defs sample_defs)
  from multi_source_policy [OF l, of sample_env sample_cfg "''g''"] d
  obtain acts where g: "CPCP_actions sample_env sample_cfg (?srcs @ [''g'']) = Inr acts"
    "submitted acts = []" "reported acts = [policy_line sample_env ''g'']"
    by auto
  then have "acts = [Report (policy_line sample_env ''g'')]"
    by (cases acts rule: submitted.cases; cases "tl acts" rule: submitted.cases) auto
  with g have b: "CPCP_actions sample_env sample_cfg (?srcs @ [''g'']) = Inr [Report (policy_line sample_env ''g'')]"
    by simp
  from multi_source_policy [OF l, of sample_env sample_cfg "''nowhere''"] d
  obtain acts' where n: "CPCP_actions sample_env sample_cfg (?srcs @ [''nowhere'']) = Inr acts'"
    "submitted acts' = []" "reported acts' = [policy_line sample_env ''nowhere'']"
    by auto
  then have "acts' = [Report (policy_line sample_env ''nowhere'')]"
    by (cases acts' rule: submitted.cases; cases "tl acts'" rule: submitted.cases) auto
  with n have c: "CPCP_actions sample_env sample_cfg (?srcs @ [''nowhere'']) = Inr [Report (policy_line sample_env ''nowhere'')]"
    by simp
  from l a t b c show ?thesis by blast
qed

subsection \<open>Descriptors of a regular file\<close>

text \<open>
  Claim C8. The claim is that every descriptor the regular-file branch opens is closed
  on every path, the path where creating the destination fails included. On that path
  (lines 375 to 377) the worker reports the error and closes nothing: the source, opened
  at line 371, stays open. On the path where the destination is created both files are
  closed before \<^verbatim>\<open>os.Chmod\<close>, also after a failed copy (\<open>copy_regular_fds\<close>,
  \<open>copy_regular_ops\<close>). Evaluated on a regular file that opens and whose destination
  cannot be created: the worker is back at the top of its loop, the task is done, and
  the source is still among the open files, with no \<^verbatim>\<open>Close\<close> among the calls made.
\<close>

theorem source_left_open_when_create_fails:
  "worker_step sample_env sample_cfg
       \<lparr>localTasks = [], pc = Execute ''f'' ''t'' (Some (uncreatable ''f''))\<rparr> one_counted
     = Step (idle_worker,
             one_counted\<lparr>wg := 0,
               errs := [fmtErr ''t'' (OsError OtherKind ''permission denied'') 377],
               ops := [OpOpen ''f'', OpCreate ''t''], fds := [''f'']\<rparr>)"
  by (simp add: uncreatable_def one_counted_def idle_worker_def engine_defs sample_defs)

subsection \<open>Recycling of the task objects\<close>




subsection \<open>The preserve-links flag\<close>

text \<open>
  Claim C10, as stated, fails: the driver does read the preserve-links field after
  parsing. With a verbosity above 1 it prints the whole configuration (line 24), and two
  runs that differ only in the flag print different lines.
\<close>

theorem config_dump_shows_preserve_links:
  "debug_dump (sample_cfg\<lparr>verbosity := 2, preserveLinks := True\<rparr>) [''f'', ''d'']
     \<noteq> debug_dump (sample_cfg\<lparr>verbosity := 2, preserveLinks := False\<rparr>) [''f'', ''d'']"
  by (simp add: debug_dump_def sample_cfg_def)

text \<open>
  Claim C10, amended. The preserve-links field, which \<^verbatim>\<open>setPreserve\<close> sets for
  \<^verbatim>\<open>links\<close> and for \<^verbatim>\<open>all\<close>, is read in one place only, the dump of the configuration
  that the driver prints when the verbosity is above 1. Two runs that differ only in the
  value of the flag are otherwise the same: the driver decides on the same error lines
  and the same tasks, the engine starts in the same state, every state has the same
  successors, so the same states are reached, with the same calls to the operating
  system, the same message and error lines and hence the same final result; and with a
  verbosity of at most 1 the dump is the same too (it is empty).
\<close>

theorem preserve_links_inert:
  "setPreserve env cfg ''links'' = Inr (cfg\<lparr>preserveLinks := True\<rparr>)
   \<and> setPreserve env cfg ''all'' = Inr (cfg\<lparr>preserveLinks := True, preserveMode := True\<rparr>)
   \<and> CPCP_actions env (cfg\<lparr>preserveLinks := b\<rparr>) args = CPCP_actions env cfg args
   \<and> capture_umask u (cfg\<lparr>preserveLinks := b\<rparr>) = (capture_umask u cfg)\<lparr>preserveLinks := b\<rparr>
   \<and> init (cfg\<lparr>preserveLinks := b\<rparr>) acts = init cfg acts
   \<and> successors env (cfg\<lparr>preserveLinks := b\<rparr>) g = successors env cfg g
   \<and> reaches env (cfg\<lparr>preserveLinks := b\<rparr>) g0 g = reaches env cfg g0 g
   \<and> (verbosity cfg \<le> 1 \<longrightarrow> debug_dump (cfg\<lparr>preserveLinks := b\<rparr>) args = debug_dump cfg args)"
  by (simp add: setPreserve_def CPCP_actions_links successors_links reaches_links capture_umask_def
      init_def debug_dump_def)

theorem preserve_links_inert_witness:
  "verbosity sample_cfg \<le> 1
   \<and> CPCP_actions sample_env (sample_cfg\<lparr>preserveLinks := True\<rparr>) [''f'', ''d'']
       = CPCP_actions sample_env sample_cfg [''f'', ''d'']
   \<and> successors sample_env (sample_cfg\<lparr>preserveLinks := True\<rparr>)
         (init (sample_cfg\<lparr>preserveLinks := True\<rparr>) [Submit ''f'' ''d/f'' (file_entry ''f'' 0x1A4)])
       = successors sample_env sample_cfg (init sample_cfg [Submit ''f'' ''d/f'' (file_entry ''f'' 0x1A4)])
   \<and> debug_dump (sample_cfg\<lparr>preserveLinks := True\<rparr>) [''f'', ''d''] = []
   \<and> debug_dump sample_cfg [''f'', ''d''] = []"
proof -
  have v: "verbosity sample_cfg \<le> 1" by (simp add: sample_cfg_def)
  have e: "debug_dump sample_cfg [''f'', ''d''] = []" by (simp add: debug_dump_def sample_cfg_def)
  from preserve_links_inert [where env = sample_env and cfg = sample_cfg and b = True
      and args = "[''f'', ''d'']" and acts = "[Submit ''f'' ''d/f'' (file_entry ''f'' 0x1A4)]"
      and g = "init sample_cfg [Submit ''f'' ''d/f'' (file_entry ''f'' 0x1A4)]"] v e
  show ?thesis by simp
qed

end
